theory Spec2Isabelle
  imports Main "HOL-Library.Word"
begin

unbundle bit_operations_syntax

section \<open>APE tags (ape.c): data model\<close>

text \<open>
  Bytes are \<open>8 word\<close>, the \<open>uint32_t\<close> fields are \<open>32 word\<close>. A C \<open>int\<close> is an
  \<open>int\<close> here; where the source converts an unsigned 32-bit value to \<open>int\<close> the
  conversion is written out (\<open>s32\<close>, two's complement), and where a signed addition could
  leave the range of \<open>int\<close> the model faults.
\<close>

type_synonym byte = "8 word"
type_synonym u32 = "32 word"

definition INT_MAX :: int where
  "INT_MAX = 2147483647"

text \<open>Conversion of an integer to \<open>uint32_t\<close>, and of that to \<open>int\<close>.\<close>

definition u32_of :: "int \<Rightarrow> int" where
  "u32_of x = x mod 4294967296"

definition s32 :: "int \<Rightarrow> int" where
  "s32 x = (if u32_of x \<le> INT_MAX then u32_of x else u32_of x - 4294967296)"

text \<open>\<open>static const char preamble[8]\<close>: the bytes of \<open>APETAGEX\<close>.\<close>

definition PREAMBLE_SIZE :: nat where
  "PREAMBLE_SIZE = 8"

definition preamble :: "byte list" where
  "preamble = [0x41, 0x50, 0x45, 0x54, 0x41, 0x47, 0x45, 0x58]"

definition HEADER_SIZE :: nat where
  "HEADER_SIZE = 32"

record ape_header =
  version :: u32
  size :: u32
  count :: u32
  flags :: u32

definition AF_IS_UTF8 :: "u32 \<Rightarrow> bool" where
  "AF_IS_UTF8 f = (f AND 6 = 0)"

definition AF_IS_FOOTER :: "u32 \<Rightarrow> bool" where
  "AF_IS_FOOTER f = (f AND push_bit 29 1 = 0)"

text \<open>
  \<open>struct APE\<close>. \<open>buf\<close> holds the bytes of the allocation that have been written;
  \<open>cap\<close> is \<open>None\<close> for the null pointer and the allocated length otherwise.
\<close>

record APE =
  buf :: "byte list"
  cap :: "nat option"
  pos :: int
  header :: ape_header

text \<open>
  A read of one byte of a buffer. A read outside the bytes that were written (outside the
  allocation, through the null pointer, or of a byte never filled) has no defined value in
  C: it is \<open>None\<close>, and every caller turns it into the outcome \<open>Fault\<close>.
\<close>

definition rd :: "byte list \<Rightarrow> int \<Rightarrow> byte option" where
  "rd b i = (if 0 \<le> i \<and> i < int (length b) then Some (b ! nat i) else None)"

definition le32 :: "byte \<Rightarrow> byte \<Rightarrow> byte \<Rightarrow> byte \<Rightarrow> u32" where
  "le32 b0 b1 b2 b3 =
     ucast b0 OR push_bit 8 (ucast b1) OR push_bit 16 (ucast b2) OR push_bit 24 (ucast b3)"

definition get_le32 :: "byte list \<Rightarrow> int \<Rightarrow> u32 option" where
  "get_le32 b i =
     (case (rd b i, rd b (i + 1), rd b (i + 2), rd b (i + 3)) of
        (Some b0, Some b1, Some b2, Some b3) \<Rightarrow> Some (le32 b0 b1 b2 b3)
      | _ \<Rightarrow> None)"

section \<open>String helpers\<close>

text \<open>
  \<open>xstrdup\<close> and \<open>xstrndup\<close> come from \<open>xmalloc.h\<close>, which is not among the sources at
  hand: they are the wrappers of the C library's \<open>strdup\<close> and \<open>strndup\<close> that abort when
  memory runs out, and are modelled by the contract of those two functions. A C string is the
  bytes before the first zero byte. \<open>xstrdup (p)\<close> copies the string at \<open>p\<close>; it reads up
  to and including the terminator, so it faults when the buffer ends before one.
  \<open>xstrndup (p, n)\<close> copies at most \<open>n\<close> bytes and stops at a zero byte; it reads the
  terminator only when fewer than \<open>n\<close> bytes precede it. The results are C strings, which is
  also how \<open>ape_parse_one\<close> uses them (\<open>strcasecmp (key, ...)\<close>, \<open>strlen (val)\<close>).
\<close>

definition xstrdup :: "byte list \<Rightarrow> int \<Rightarrow> byte list option" where
  "xstrdup b p =
     (if 0 \<le> p \<and> p \<le> int (length b)
      then (let s = takeWhile (\<lambda>c. c \<noteq> 0) (drop (nat p) b)
            in if nat p + length s < length b then Some s else None)
      else None)"

definition xstrndup :: "byte list \<Rightarrow> int \<Rightarrow> nat \<Rightarrow> byte list option" where
  "xstrndup b p n =
     (if 0 \<le> p \<and> p \<le> int (length b)
      then (let s = takeWhile (\<lambda>c. c \<noteq> 0) (take n (drop (nat p) b))
            in if length s = n \<or> nat p + length s < length b then Some s else None)
      else None)"

text \<open>\<open>strcasecmp (a, b) == 0\<close> in the C locale: equality after lowering \<open>A\<close>..\<open>Z\<close>.\<close>

definition tolower :: "byte \<Rightarrow> byte" where
  "tolower c = (if 0x41 \<le> c \<and> c \<le> 0x5A then c + 0x20 else c)"

definition strcasecmp_eq :: "byte list \<Rightarrow> byte list \<Rightarrow> bool" where
  "strcasecmp_eq a b = (map tolower a = map tolower b)"

definition str_record_date :: "byte list" where
  "str_record_date = [0x72, 0x65, 0x63, 0x6F, 0x72, 0x64, 0x20, 0x64, 0x61, 0x74, 0x65]"

definition str_year :: "byte list" where
  "str_year = [0x79, 0x65, 0x61, 0x72]"

definition str_date :: "byte list" where
  "str_date = [0x64, 0x61, 0x74, 0x65]"

section \<open>The item decoder: \<open>ape_parse_one\<close> and \<open>ape_get_comment\<close>\<close>

text \<open>
  The \<open>for\<close> loop that looks for the key's terminator:
  \<open>for (key_len = 0; key_len < max_key_len && buf[pos + key_len]; key_len++)\<close>.
  The result is the final \<open>key_len\<close>, or \<open>None\<close> when a read faults.
\<close>

function key_scan :: "byte list \<Rightarrow> int \<Rightarrow> int \<Rightarrow> int \<Rightarrow> int option" where
  "key_scan b p max_key_len key_len =
     (if key_len < max_key_len
      then (case rd b (p + key_len) of
              None \<Rightarrow> None
            | Some c \<Rightarrow> if c \<noteq> 0 then key_scan b p max_key_len (key_len + 1)
                        else Some key_len)
      else Some key_len)"
  by pat_completeness auto
termination
  by (relation "measure (\<lambda>(b, p, m, k). nat (m - k))") auto

declare key_scan.simps [simp del]

text \<open>
  What one call can end in: an entry with the new position (the return value of
  \<open>ape_parse_one\<close>), the return of \<open>-1\<close>, or a fault (undefined behaviour in C).
\<close>

datatype parse_result =
    Entry "byte list" "byte list" int
  | Fail
  | Fault

text \<open>
  The \<open>while (size - pos > 8)\<close> loop of \<open>ape_parse_one\<close>. \<open>b\<close> is the allocation and
  \<open>off\<close> the offset of the pointer the function was given (\<open>ape->buf + ape->pos\<close>), so
  \<open>buf[i]\<close> of the source is \<open>rd b (off + i)\<close>. The loop need not end (a skipped entry can
  move \<open>pos\<close> backwards), so it runs on fuel: \<open>None\<close> is fuel exhausted.

  \<open>size - pos - val_len - 1\<close> and \<open>pos += ... + val_len\<close> are computed in \<open>uint32_t\<close>
  and converted to \<open>int\<close>: \<open>s32\<close>. \<open>size - pos\<close> is a signed subtraction: the model
  faults where it leaves the range of \<open>int\<close>. (The signed \<open>key_len + 1\<close> could leave it
  only after a key scan over \<open>2^31\<close> bytes, more than any buffer that \<open>ape_read_tags\<close>
  allocates; the model computes on.)
\<close>

fun parse_loop :: "nat \<Rightarrow> byte list \<Rightarrow> int \<Rightarrow> int \<Rightarrow> int \<Rightarrow> parse_result option" where
  "parse_loop 0 b off sz p = None"
| "parse_loop (Suc n) b off sz p =
     (if sz - p > INT_MAX then Some Fault
      else if \<not> (sz - p > 8) then Some Fail
      else
        (case get_le32 b (off + p) of
           None \<Rightarrow> Some Fault
         | Some val_len \<Rightarrow>
        (case get_le32 b (off + p + 4) of
           None \<Rightarrow> Some Fault
         | Some flgs \<Rightarrow>
        (let p1 = p + 8;
             max_key_len = s32 (sz - p1 - uint val_len - 1)
         in if max_key_len < 0 then Some Fail
            else
        (case key_scan b (off + p1) max_key_len 0 of
           None \<Rightarrow> Some Fault
         | Some key_len \<Rightarrow>
        (case rd b (off + p1 + key_len) of
           None \<Rightarrow> Some Fault
         | Some c \<Rightarrow>
            if c \<noteq> 0 then Some Fail
            else if \<not> AF_IS_UTF8 flgs
            then parse_loop n b off sz (s32 (p1 + (key_len + 1 + uint val_len)))
            else
        (case xstrdup b (off + p1) of
           None \<Rightarrow> Some Fault
         | Some key0 \<Rightarrow>
        (let p2 = p1 + (key_len + 1) in
        (case xstrndup b (off + p2) (unat val_len) of
           None \<Rightarrow> Some Fault
         | Some val0 \<Rightarrow>
        (let p3 = s32 (p2 + uint val_len);
             key = (if strcasecmp_eq key0 str_record_date \<or> strcasecmp_eq key0 str_year
                    then str_date else key0);
             val = (if strcasecmp_eq key str_date \<and> length val0 > 4
                    then take 4 val0 else val0)
         in Some (Entry key val p3)))))))))))"

definition ape_parse_one :: "nat \<Rightarrow> byte list \<Rightarrow> int \<Rightarrow> int \<Rightarrow> parse_result option" where
  "ape_parse_one n b off sz = parse_loop n b off sz 0"

text \<open>\<open>ape_new\<close>: \<open>xnew0\<close> gives a zeroed structure.\<close>

definition ape_new :: APE where
  "ape_new = \<lparr> buf = [], cap = None, pos = 0,
               header = \<lparr> version = 0, size = 0, count = 0, flags = 0 \<rparr> \<rparr>"

text \<open>
  \<open>ape_get_comment\<close>. The outcome is \<open>None\<close> when the loop does not return within the
  fuel, and otherwise a fault or the returned comment (\<open>None\<close> for the null pointer) with
  the handle. \<open>ape->pos >= h->size\<close> compares in \<open>uint32_t\<close>; \<open>h->size - ape->pos\<close> is
  computed there and passed as an \<open>int\<close>; \<open>ape->pos += rc\<close> is a signed addition.
\<close>

datatype comment_result =
    Returned "(byte list \<times> byte list) option" APE
  | Faulted

definition ape_get_comment :: "nat \<Rightarrow> APE \<Rightarrow> comment_result option" where
  "ape_get_comment n ape =
     (let h = header ape in
      if u32_of (pos ape) \<ge> uint (size h) then Some (Returned None ape)
      else
        (case ape_parse_one n (buf ape) (pos ape) (s32 (uint (size h) - pos ape)) of
           None \<Rightarrow> None
         | Some Fault \<Rightarrow> Some Faulted
         | Some Fail \<Rightarrow> Some (Returned None ape)
         | Some (Entry key val rc) \<Rightarrow>
             if rc < 0 then Some (Returned None ape)
             else if pos ape + rc > INT_MAX then Some Faulted
             else Some (Returned (Some (key, val)) (ape\<lparr>pos := pos ape + rc\<rparr>))))"

section \<open>The stream: \<open>lseek\<close>, \<open>read\<close>, \<open>read_all\<close>\<close>

text \<open>
  The file descriptor is a file with its contents, its offset (an \<open>off_t\<close>, wider than
  \<open>int\<close>; never negative), and a script that fixes what the coming calls of \<open>read\<close> do
  beyond delivering everything asked for: \<open>Deliver k\<close> is a short read of at most
  \<open>k + 1\<close> bytes, \<open>Interrupt e\<close> is a failed read with \<open>errno = e\<close>. With the script
  used up, every read delivers all the bytes there are, up to the number asked for.
  \<open>regular\<close> is the \<open>S_IFREG\<close> bit that \<open>get_size\<close> tests.
\<close>

datatype errno = EINTR | EAGAIN | EIO

datatype rd_event = Deliver nat | Interrupt errno

record stream =
  data :: "byte list"
  offs :: nat
  script :: "rd_event list"
  regular :: bool

datatype whence = SEEK_SET | SEEK_CUR | SEEK_END

text \<open>\<open>lseek\<close> returns the new offset, or \<open>-1\<close> (and moves nothing) for a negative one.\<close>

definition lseek :: "stream \<Rightarrow> int \<Rightarrow> whence \<Rightarrow> int \<times> stream" where
  "lseek s off w =
     (let target = (case w of SEEK_SET \<Rightarrow> off
                            | SEEK_CUR \<Rightarrow> int (offs s) + off
                            | SEEK_END \<Rightarrow> int (length (data s)) + off)
      in if target < 0 then (- 1, s) else (target, s\<lparr>offs := nat target\<rparr>))"

datatype rd_result = RdErr errno | RdOk "byte list"

definition sys_read :: "stream \<Rightarrow> nat \<Rightarrow> rd_result \<times> stream" where
  "sys_read s n =
     (case script s of
        [] \<Rightarrow>
          (let bs = take n (drop (offs s) (data s))
           in (RdOk bs, s\<lparr>offs := offs s + length bs\<rparr>))
      | Interrupt e # es \<Rightarrow> (RdErr e, s\<lparr>script := es\<rparr>)
      | Deliver k # es \<Rightarrow>
          (let bs = take (min n (Suc k)) (drop (offs s) (data s))
           in (RdOk bs, s\<lparr>offs := offs s + length bs, script := es\<rparr>)))"

text \<open>What bounds the number of reads that return something: the measure of both loops.\<close>

definition todo :: "stream \<Rightarrow> nat" where
  "todo s = length (script s) + (length (data s) - offs s)"

text \<open>
  Modelled from the spec: \<open>read_all\<close> is defined in \<open>file.c\<close>, which is not among the
  sources at hand. It reads until \<open>count\<close> bytes have arrived or the stream ends, tries again
  after an interrupted or would-block read, and gives up on any other error. It returns the
  number of bytes read, or \<open>-1\<close>; the bytes read so far are in the caller's buffer in both
  cases.
\<close>

function read_all_loop :: "stream \<Rightarrow> nat \<Rightarrow> byte list \<Rightarrow> int \<times> byte list \<times> stream" where
  "read_all_loop s cnt acc =
       (case sys_read s (cnt - length acc) of
          (RdErr e, s') \<Rightarrow>
            if e = EINTR \<or> e = EAGAIN
            then (if cnt - length acc > 0 then read_all_loop s' cnt acc
                  else (int (length acc), acc, s'))
            else (- 1, acc, s')
        | (RdOk bs, s') \<Rightarrow>
            if bs = [] then (int (length acc), acc, s')
            else (if cnt - length (acc @ bs) > 0 then read_all_loop s' cnt (acc @ bs)
                  else (int (length (acc @ bs)), acc @ bs, s')))"
  by pat_completeness auto
termination
  apply (relation "measure (\<lambda>(s, cnt, acc). todo s)")
    apply (auto simp: todo_def sys_read_def Let_def split: list.splits rd_event.splits)
  apply arith
  done

declare read_all_loop.simps [simp del]

definition read_all :: "stream \<Rightarrow> nat \<Rightarrow> int \<times> byte list \<times> stream" where
  "read_all s cnt = read_all_loop s cnt []"

section \<open>The tag locator\<close>

text \<open>
  The \<open>for\<close> loop of \<open>find_ape_tag_slow\<close> over one chunk: \<open>Inl\<close> is the \<open>return\<close> inside
  the loop, \<open>Inr\<close> the value of \<open>match\<close> when the chunk is used up. \<open>i\<close> is the loop index.
\<close>

fun scan_chunk :: "byte list \<Rightarrow> nat \<Rightarrow> int \<Rightarrow> int \<Rightarrow> int + nat" where
  "scan_chunk [] match p i = Inr match"
| "scan_chunk (c # cs) match p i =
     (if c \<noteq> preamble ! match then scan_chunk cs 0 p (i + 1)
      else if match + 1 = PREAMBLE_SIZE then Inl (p + i + 1 - int PREAMBLE_SIZE)
      else scan_chunk cs (match + 1) p (i + 1))"

text \<open>
  The \<open>while (1)\<close> loop with its 4096-byte buffer. It ends: every read either uses up an
  event of the script, or delivers bytes, or returns 0. \<open>pos\<close> is an \<open>int\<close> in the source
  and an integer here: it counts the bytes read, and stays in range in files below 2 GiB.
\<close>

function slow_loop :: "stream \<Rightarrow> nat \<Rightarrow> int \<Rightarrow> int \<times> stream" where
  "slow_loop s match p =
     (case sys_read s 4096 of
        (RdErr e, s') \<Rightarrow>
          if e = EAGAIN \<or> e = EINTR then slow_loop s' match p else (- 1, s')
      | (RdOk bs, s') \<Rightarrow>
          if bs = [] then (- 1, s')
          else (case scan_chunk bs match p 0 of
                  Inl r \<Rightarrow> (r, s')
                | Inr match' \<Rightarrow> slow_loop s' match' (p + int (length bs))))"
  by pat_completeness auto
termination
  by (relation "measure (\<lambda>(s, match, p). todo s)")
    (auto simp: todo_def sys_read_def Let_def split: list.splits rd_event.splits)

declare slow_loop.simps [simp del]

definition find_ape_tag_slow :: "stream \<Rightarrow> int \<times> stream" where
  "find_ape_tag_slow s =
     (case lseek s 0 SEEK_SET of
        (r, s1) \<Rightarrow> if r = - 1 then (- 1, s1) else slow_loop s1 0 0)"

text \<open>
  \<open>ape_parse_header\<close> on the 32 bytes that \<open>read_header\<close> has read; the header is written
  only after the preamble has matched.
\<close>

definition ape_parse_header :: "byte list \<Rightarrow> ape_header \<Rightarrow> bool \<times> ape_header" where
  "ape_parse_header b h =
     (if take PREAMBLE_SIZE b \<noteq> preamble then (False, h)
      else (True, h\<lparr> version := le32 (b ! 8) (b ! 9) (b ! 10) (b ! 11),
                     size := le32 (b ! 12) (b ! 13) (b ! 14) (b ! 15),
                     count := le32 (b ! 16) (b ! 17) (b ! 18) (b ! 19),
                     flags := le32 (b ! 20) (b ! 21) (b ! 22) (b ! 23) \<rparr>))"

definition read_header :: "stream \<Rightarrow> ape_header \<Rightarrow> bool \<times> ape_header \<times> stream" where
  "read_header s h =
     (case read_all s HEADER_SIZE of
        (n, b, s') \<Rightarrow>
          if n \<noteq> int HEADER_SIZE then (False, h, s')
          else (case ape_parse_header b h of (ok, h') \<Rightarrow> (ok, h', s')))"

definition find_ape_tag :: "stream \<Rightarrow> ape_header \<Rightarrow> bool \<Rightarrow> bool \<times> ape_header \<times> stream" where
  "find_ape_tag s h slow =
     (case lseek s (- int HEADER_SIZE) SEEK_END of
        (r, s1) \<Rightarrow>
          if r = - 1 then (False, h, s1)
          else (case read_header s1 h of
                  (ok, h1, s2) \<Rightarrow>
                    if ok then (True, h1, s2)
                    else if \<not> slow then (False, h1, s2)
                    else (case find_ape_tag_slow s2 of
                            (p, s3) \<Rightarrow>
                              if p = - 1 then (False, h1, s3)
                              else (case lseek s3 p SEEK_SET of
                                      (r', s4) \<Rightarrow>
                                        if r' = - 1 then (False, h1, s4)
                                        else read_header s4 h1))))"

section \<open>The tag body reader: \<open>ape_read_tags\<close>\<close>

definition get_size :: "stream \<Rightarrow> int" where
  "get_size s = (if \<not> regular s then 0 else int (length (data s)))"

text \<open>
  The body of \<open>ape_read_tags\<close> between saving and restoring the offset. Each \<open>goto fail\<close>
  is one value of \<open>exit_path\<close>, in the order of the source; \<open>Success\<close> is the path that
  reaches \<open>rc = h->count\<close>. \<open>h\<close> points into the handle, so the handle's header is
  whatever \<open>find_ape_tag\<close> left there. \<open>xnew\<close> allocates \<open>h->size\<close> bytes, of which
  \<open>read_all\<close> fills those it reads.
\<close>

datatype exit_path = NotFound | SeekFailed | TooLarge | ShortRead | Success

definition read_tags_body :: "APE \<Rightarrow> stream \<Rightarrow> bool \<Rightarrow> exit_path \<times> APE \<times> stream" where
  "read_tags_body ape s slow =
     (case find_ape_tag s (header ape) slow of
        (found, h, s1) \<Rightarrow>
          (let ape1 = ape\<lparr>header := h\<rparr> in
           if \<not> found then (NotFound, ape1, s1)
           else
            (case (if AF_IS_FOOTER (flags h)
                   then lseek s1 (get_size s1 - uint (size h)) SEEK_SET
                   else (0, s1)) of
               (r, s2) \<Rightarrow>
                 if r = - 1 then (SeekFailed, ape1, s2)
                 else if uint (size h) > 1024 * 1024 then (TooLarge, ape1, s2)
                 else (case read_all s2 (unat (size h)) of
                         (n, b, s3) \<Rightarrow>
                           (let ape2 = ape1\<lparr>buf := b, cap := Some (unat (size h))\<rparr> in
                            if n \<noteq> uint (size h) then (ShortRead, ape2, s3)
                            else (Success, ape2, s3))))))"

text \<open>
  \<open>ape_read_tags\<close>: \<open>old_pos\<close> is an \<open>int\<close>, so the offset that \<open>lseek\<close> returns is
  converted (\<open>s32\<close>); so is \<open>rc = h->count\<close>. The result of the last \<open>lseek\<close> is not
  looked at.
\<close>

definition ape_read_tags :: "APE \<Rightarrow> stream \<Rightarrow> bool \<Rightarrow> int \<times> APE \<times> stream" where
  "ape_read_tags ape s slow =
     (case lseek s 0 SEEK_CUR of
        (cur, s0) \<Rightarrow>
          (let old_pos = s32 cur in
           (case read_tags_body ape s0 slow of
              (e, ape', s') \<Rightarrow>
                (let rc = (if e = Success then s32 (uint (count (header ape'))) else - 1)
                 in (case lseek s' old_pos SEEK_SET of
                       (r, s'') \<Rightarrow> (rc, ape', s''))))))"

section \<open>The properties, as the specification words them\<close>

text \<open>
  The invariant of a tag: \<open>0 \<le> cursor \<le> header.size\<close>.
\<close>

definition cursor_inv :: "APE \<Rightarrow> bool" where
  "cursor_inv a = (0 \<le> pos a \<and> pos a \<le> uint (size (header a)))"

text \<open>
  Key normalisation: a key that equals \<open>record date\<close> or \<open>year\<close> without regard to case
  becomes \<open>date\<close>. Value normalisation: if the key (after that) equals \<open>date\<close> without
  regard to case and the value is longer than 4, the value is cut to its first 4 characters.
\<close>

definition spec_norm_key :: "byte list \<Rightarrow> byte list" where
  "spec_norm_key k0 =
     (if strcasecmp_eq k0 str_record_date \<or> strcasecmp_eq k0 str_year then str_date else k0)"

definition spec_norm_val :: "byte list \<Rightarrow> byte list \<Rightarrow> byte list" where
  "spec_norm_val k v0 = (if strcasecmp_eq k str_date \<and> length v0 > 4 then take 4 v0 else v0)"

text \<open>
  The entry that \<open>ape_parse_one\<close> decodes at position \<open>q\<close> of its buffer, as the checks
  of one pass of the loop see it: the loop is entered, the value length \<open>vl\<close> and flags
  that mark text are read, the key bound is not negative, the key scan stops after \<open>kl\<close>
  bytes on a zero byte, and the two copies give \<open>key0\<close> and \<open>val0\<close>.
\<close>

definition text_entry_at ::
  "byte list \<Rightarrow> int \<Rightarrow> int \<Rightarrow> int \<Rightarrow> u32 \<Rightarrow> int \<Rightarrow> byte list \<Rightarrow> byte list \<Rightarrow> bool" where
  "text_entry_at b off sz q vl kl key0 val0 =
     (sz - q > 8 \<and> sz - q \<le> INT_MAX \<and>
      get_le32 b (off + q) = Some vl \<and>
      (\<exists>fl. get_le32 b (off + q + 4) = Some fl \<and> AF_IS_UTF8 fl) \<and>
      0 \<le> s32 (sz - (q + 8) - uint vl - 1) \<and>
      key_scan b (off + (q + 8)) (s32 (sz - (q + 8) - uint vl - 1)) 0 = Some kl \<and>
      rd b (off + (q + 8) + kl) = Some 0 \<and>
      xstrdup b (off + (q + 8)) = Some key0 \<and>
      xstrndup b (off + (q + 8 + (kl + 1))) (unat vl) = Some val0)"

text \<open>
  An item record at the cursor of a tag whose body is in the buffer:
  \<open>value_length | item_flags | key bytes | 0x00 | value bytes\<close>, with flags that mark
  text (\<open>fl\<close>), a key of \<open>kl\<close> non-zero bytes, and room for the \<open>value_length\<close> value
  bytes within \<open>header.size\<close>. Nothing is asked of the value bytes.
\<close>

definition stored_text_item :: "APE \<Rightarrow> u32 \<Rightarrow> u32 \<Rightarrow> nat \<Rightarrow> bool" where
  "stored_text_item a vl fl kl =
     (0 \<le> pos a \<and> uint (size (header a)) \<le> int (length (buf a))
      \<and> uint (size (header a)) \<le> 1048576
      \<and> get_le32 (buf a) (pos a) = Some vl
      \<and> get_le32 (buf a) (pos a + 4) = Some fl \<and> AF_IS_UTF8 fl
      \<and> pos a + 8 + int kl + 1 + uint vl \<le> uint (size (header a))
      \<and> (\<forall>i<kl. buf a ! (nat (pos a) + 8 + i) \<noteq> 0)
      \<and> buf a ! (nat (pos a) + 8 + kl) = 0)"

section \<open>Concrete tags and streams\<close>

text \<open>
  An 18-byte body: a binary-flagged entry that declares \<open>value_length = 0xFFFFFFFF\<close> with
  an empty key, followed by bytes that read as the text entry \<open>k\<close> with an empty value.
\<close>

definition wrap_buf :: "byte list" where
  "wrap_buf = [0xFF, 0xFF, 0xFF, 0xFF, 2, 0, 0, 0,
               0, 0, 0, 0, 0, 0, 0, 0, 0x6B, 0]"

definition wrap_ape :: APE where
  "wrap_ape = \<lparr> buf = wrap_buf, cap = Some 18, pos = 0,
                header = \<lparr> version = 2000, size = 18, count = 1, flags = 0 \<rparr> \<rparr>"

text \<open>
  A 9-byte body: a binary-flagged entry with an empty key that declares
  \<open>value_length = 0xFFFFFFF7\<close>, which moves the position back to where it was.
\<close>

definition hang_buf :: "byte list" where
  "hang_buf = [0xF7, 0xFF, 0xFF, 0xFF, 2, 0, 0, 0, 0]"

text \<open>A text entry \<open>k\<close> whose three value bytes are \<open>a\<close>, zero, \<open>b\<close>.\<close>

definition zero_buf :: "byte list" where
  "zero_buf = [3, 0, 0, 0, 0, 0, 0, 0, 0x6B, 0, 0x61, 0, 0x62]"

definition zero_ape :: APE where
  "zero_ape = \<lparr> buf = zero_buf, cap = Some 13, pos = 0,
                header = \<lparr> version = 2000, size = 13, count = 1, flags = 0 \<rparr> \<rparr>"

text \<open>
  A text entry \<open>k\<close> whose three value bytes \<open>FF FE 80\<close> are not UTF-8.
\<close>

definition raw_buf :: "byte list" where
  "raw_buf = [3, 0, 0, 0, 0, 0, 0, 0, 0x6B, 0, 0xFF, 0xFE, 0x80]"

definition raw_ape :: APE where
  "raw_ape = \<lparr> buf = raw_buf, cap = Some 13, pos = 0,
               header = \<lparr> version = 2000, size = 13, count = 1, flags = 0 \<rparr> \<rparr>"

text \<open>A text entry \<open>Year\<close> with the ten value bytes \<open>1999-08-11\<close>.\<close>

definition year_buf :: "byte list" where
  "year_buf = [10, 0, 0, 0, 0, 0, 0, 0, 0x59, 0x65, 0x61, 0x72, 0,
               0x31, 0x39, 0x39, 0x39, 0x2D, 0x30, 0x38, 0x2D, 0x31, 0x31]"

definition year_ape :: APE where
  "year_ape = \<lparr> buf = year_buf, cap = Some 23, pos = 0,
                header = \<lparr> version = 2000, size = 23, count = 1, flags = 0 \<rparr> \<rparr>"

text \<open>
  A 32-byte header or footer block: the preamble, version 2000, the three fields given as
  their bytes, and the eight reserved bytes.
\<close>

definition block :: "byte list \<Rightarrow> byte list \<Rightarrow> byte list \<Rightarrow> byte list" where
  "block sz cnt fl = preamble @ [0xD0, 7, 0, 0] @ sz @ cnt @ fl @ replicate 8 0"

definition file_of :: "byte list \<Rightarrow> stream" where
  "file_of bs = \<lparr> data = bs, offs = 0, script = [], regular = True \<rparr>"

text \<open>Nine bytes, \<open>AAPETAGEX\<close>: the preamble starts at offset 1.\<close>

definition aa_stream :: stream where
  "aa_stream = file_of (0x41 # preamble)"

text \<open>A file of 32 zero bytes, with the offset at \<open>2^32 + 5\<close>.\<close>

definition far_stream :: stream where
  "far_stream = (file_of (replicate 32 0))\<lparr>offs := 4294967301\<rparr>"

text \<open>A file that is only a footer: size 0, count \<open>0xFFFFFFFF\<close>, flags 0.\<close>

definition count_stream :: stream where
  "count_stream = file_of (block [0, 0, 0, 0] [0xFF, 0xFF, 0xFF, 0xFF] [0, 0, 0, 0])"

text \<open>
  A file that is only a header of the header-only layout (bit 29 of the flags set) with
  size 13 and count 1: no byte follows it.
\<close>

definition short_stream :: stream where
  "short_stream = file_of (block [13, 0, 0, 0] [1, 0, 0, 0] [0, 0, 0, 0x20])"

text \<open>A file that is only a footer: size 100, count 1, flags 0.\<close>

definition seek_stream :: stream where
  "seek_stream = file_of (block [100, 0, 0, 0] [1, 0, 0, 0] [0, 0, 0, 0])"

text \<open>
  A footer-terminated file: five other bytes, the entry of \<open>zero_buf\<close>, and a footer with
  size 45 (entry and footer), count 1, flags 0. The offset is at 2.
\<close>

definition footer_stream :: stream where
  "footer_stream =
     (file_of ([1, 2, 3, 4, 5] @ zero_buf @ block [45, 0, 0, 0] [1, 0, 0, 0] [0, 0, 0, 0]))
       \<lparr>offs := 2\<rparr>"

text \<open>
  A file in the header-only layout: three other bytes, a header with size 13, count 1 and
  bit 29 of the flags set, and the entry of \<open>zero_buf\<close>. The offset is at 2.
\<close>

definition header_stream :: stream where
  "header_stream =
     (file_of ([1, 2, 3] @ block [13, 0, 0, 0] [1, 0, 0, 0] [0, 0, 0, 0x20] @ zero_buf))
       \<lparr>offs := 2\<rparr>"

text \<open>The headers that these two files declare.\<close>

definition footer_hdr :: ape_header where
  "footer_hdr = \<lparr>version = 2000, size = 45, count = 1, flags = 0\<rparr>"

definition header_hdr :: ape_header where
  "header_hdr = \<lparr>version = 2000, size = 13, count = 1, flags = 0x20000000\<rparr>"

section \<open>Arithmetic of the conversions\<close>

lemma s32_range: "- 2147483648 \<le> s32 x \<and> s32 x \<le> INT_MAX"
  unfolding s32_def u32_of_def INT_MAX_def
  using pos_mod_bound [of 4294967296 x] pos_mod_sign [of 4294967296 x]
  by (auto split: if_splits)

lemma s32_id: "- 2147483648 \<le> x \<Longrightarrow> x \<le> INT_MAX \<Longrightarrow> s32 x = x"
proof -
  assume lo: "- 2147483648 \<le> x" and hi: "x \<le> INT_MAX"
  show ?thesis
  proof (cases "0 \<le> x")
    case True
    with hi have "x mod 4294967296 = x" by (simp add: INT_MAX_def)
    with hi show ?thesis by (simp add: s32_def u32_of_def)
  next
    case False
    with lo have "(x + 4294967296) mod 4294967296 = x + 4294967296"
      by (intro mod_pos_pos_trivial) simp_all
    then have "x mod 4294967296 = x + 4294967296" by simp
    with False lo show ?thesis by (simp add: s32_def u32_of_def INT_MAX_def)
  qed
qed

lemma s32_mod: "s32 x mod 4294967296 = x mod 4294967296"
  by (simp add: s32_def u32_of_def)

lemma s32_cong: "x mod 4294967296 = y mod 4294967296 \<Longrightarrow> s32 x = s32 y"
  by (simp add: s32_def u32_of_def)

text \<open>
  The position after an entry, whatever \<open>val_len\<close> is: the end of the buffer minus the
  part of the key bound that the key did not use.
\<close>

lemma s32_advance:
  assumes m: "m = s32 (sz - q - uint (vl :: u32) - 1)"
  shows "s32 (q + (kl + 1 + uint vl)) = s32 (sz - (m - kl))"
proof (rule s32_cong)
  have "m mod 4294967296 = (sz - q - uint vl - 1) mod 4294967296"
    unfolding m by (rule s32_mod)
  then have "(m - kl) mod 4294967296 = ((sz - q - uint vl - 1) - kl) mod 4294967296"
    by (rule mod_diff_cong) (rule refl)
  then have "(sz - (m - kl)) mod 4294967296
      = (sz - ((sz - q - uint vl - 1) - kl)) mod 4294967296"
    by (rule mod_diff_cong [OF refl])
  then show "(q + (kl + 1 + uint vl)) mod 4294967296 = (sz - (m - kl)) mod 4294967296"
    by (simp add: algebra_simps)
qed

section \<open>The item decoder: what a returned entry is\<close>

lemma key_scan_Some:
  "key_scan b p m k = Some kl \<Longrightarrow>
     k \<le> kl \<and> (kl \<le> m \<or> kl = k)
     \<and> (\<forall>i. k \<le> i \<and> i < kl \<longrightarrow> (\<exists>c. rd b (p + i) = Some c \<and> c \<noteq> 0))"
proof (induction b p m k rule: key_scan.induct)
  case (1 b p m k)
  show ?case
  proof (cases "k < m")
    case False
    with "1.prems" show ?thesis by (auto simp add: key_scan.simps)
  next
    case True
    show ?thesis
    proof (cases "rd b (p + k)")
      case None
      with True "1.prems" show ?thesis by (simp add: key_scan.simps)
    next
      case (Some c)
      show ?thesis
      proof (cases "c = 0")
        case True
        with \<open>k < m\<close> Some "1.prems" show ?thesis by (auto simp add: key_scan.simps)
      next
        case False
        with \<open>k < m\<close> Some "1.prems" have rec: "key_scan b p m (k + 1) = Some kl"
          by (simp add: key_scan.simps)
        from "1.IH" [OF \<open>k < m\<close> Some False rec]
        have ih: "k + 1 \<le> kl" "kl \<le> m \<or> kl = k + 1"
          "\<forall>i. k + 1 \<le> i \<and> i < kl \<longrightarrow> (\<exists>c. rd b (p + i) = Some c \<and> c \<noteq> 0)"
          by simp_all
        have "\<forall>i. k \<le> i \<and> i < kl \<longrightarrow> (\<exists>c. rd b (p + i) = Some c \<and> c \<noteq> 0)"
        proof (intro allI impI)
          fix i assume "k \<le> i \<and> i < kl"
          then consider "i = k" | "k + 1 \<le> i \<and> i < kl" by linarith
          then show "\<exists>c. rd b (p + i) = Some c \<and> c \<noteq> 0"
            using Some False ih(3) by cases auto
        qed
        with ih \<open>k < m\<close> show ?thesis by auto
      qed
    qed
  qed
qed

lemma parse_loop_step:
  assumes "parse_loop (Suc n) b off sz p = Some (Entry k v r)"
  shows "(\<exists>vl kl key0 val0. text_entry_at b off sz p vl kl key0 val0
            \<and> k = spec_norm_key key0 \<and> v = spec_norm_val k val0
            \<and> r = s32 (p + 8 + (kl + 1) + uint vl))
         \<or> (\<exists>p'. parse_loop n b off sz p' = Some (Entry k v r))"
  using assms unfolding text_entry_at_def
  apply (simp only: parse_loop.simps Let_def spec_norm_key_def [symmetric]
      spec_norm_val_def [symmetric])
  apply (auto split: if_split_asm option.split_asm)
  done

lemma parse_loop_Entry:
  "parse_loop n b off sz p = Some (Entry k v r) \<Longrightarrow>
   \<exists>q vl kl key0 val0. text_entry_at b off sz q vl kl key0 val0
            \<and> k = spec_norm_key key0 \<and> v = spec_norm_val k val0
            \<and> r = s32 (q + 8 + (kl + 1) + uint vl)"
proof (induction n arbitrary: p)
  case 0
  then show ?case by simp
next
  case (Suc n)
  from parse_loop_step [OF Suc.prems] show ?case
  proof
    assume "\<exists>vl kl key0 val0. text_entry_at b off sz p vl kl key0 val0
            \<and> k = spec_norm_key key0 \<and> v = spec_norm_val k val0
            \<and> r = s32 (p + 8 + (kl + 1) + uint vl)"
    then show ?thesis by blast
  next
    assume "\<exists>p'. parse_loop n b off sz p' = Some (Entry k v r)"
    then obtain p' where "parse_loop n b off sz p' = Some (Entry k v r)" ..
    then show ?thesis by (rule Suc.IH)
  qed
qed

lemma text_entry_advance:
  assumes e: "text_entry_at b off sz q vl kl key0 val0"
    and sz: "0 \<le> sz" "sz \<le> INT_MAX"
  shows "0 \<le> kl" and "s32 (q + 8 + (kl + 1) + uint vl) \<le> sz"
proof -
  define m where "m = s32 (sz - (q + 8) - uint vl - 1)"
  from e have m0: "0 \<le> m" and ks: "key_scan b (off + (q + 8)) m 0 = Some kl"
    by (simp_all add: text_entry_at_def m_def)
  from key_scan_Some [OF ks] have kl: "0 \<le> kl" "kl \<le> m \<or> kl = 0" by simp_all
  with m0 have klm: "kl \<le> m" by auto
  show "0 \<le> kl" by (rule kl(1))
  have mr: "m \<le> INT_MAX" unfolding m_def using s32_range by blast
  have "s32 (q + 8 + (kl + 1 + uint vl)) = s32 (sz - (m - kl))"
    by (rule s32_advance) (simp add: m_def)
  moreover have "s32 (sz - (m - kl)) = sz - (m - kl)"
  proof (rule s32_id)
    from sz mr kl(1) klm show "- 2147483648 \<le> sz - (m - kl)" by (simp add: INT_MAX_def)
    from klm sz show "sz - (m - kl) \<le> INT_MAX" by simp
  qed
  ultimately show "s32 (q + 8 + (kl + 1) + uint vl) \<le> sz"
    using klm by (simp add: add.assoc)
qed

lemma parse_one_size:
  "ape_parse_one n b off sz = Some (Entry k v r) \<Longrightarrow> 8 < sz"
  by (cases n) (auto simp: ape_parse_one_def split: if_split_asm)

lemma get_comment_Entry:
  assumes g: "ape_get_comment n a = Some (Returned (Some (k, v)) a')"
  shows "\<exists>r. ape_parse_one n (buf a) (pos a) (s32 (uint (size (header a)) - pos a))
               = Some (Entry k v r)
             \<and> 0 \<le> r \<and> pos a + r \<le> INT_MAX \<and> a' = a\<lparr>pos := pos a + r\<rparr>"
  using g
  by (auto simp: ape_get_comment_def Let_def split: if_split_asm option.split_asm
      parse_result.split_asm)

lemma get_comment_None:
  assumes g: "ape_get_comment n a = Some (Returned None a')"
  shows "a' = a"
  using g
  by (auto simp: ape_get_comment_def Let_def split: if_split_asm option.split_asm
      parse_result.split_asm)

lemma cursor_step:
  assumes inv: "cursor_inv a"
    and g: "ape_get_comment n a = Some (Returned res a')"
  shows "cursor_inv a'"
proof (cases res)
  case None
  with g have "a' = a" by (simp add: get_comment_None)
  with inv show ?thesis by simp
next
  case (Some kv)
  obtain k v where kv: "kv = (k, v)" by (cases kv)
  define sz where "sz = s32 (uint (size (header a)) - pos a)"
  from g Some kv obtain r where
    p: "ape_parse_one n (buf a) (pos a) sz = Some (Entry k v r)"
    and r0: "0 \<le> r" and a': "a' = a\<lparr>pos := pos a + r\<rparr>"
    unfolding sz_def using get_comment_Entry by blast
  from parse_one_size [OF p] have sz8: "8 < sz" .
  have szr: "sz \<le> INT_MAX" unfolding sz_def using s32_range by blast
  from inv have d: "0 \<le> uint (size (header a)) - pos a"
    by (simp add: cursor_inv_def)
  have szeq: "sz = uint (size (header a)) - pos a"
  proof (cases "uint (size (header a)) - pos a \<le> INT_MAX")
    case True
    with d show ?thesis unfolding sz_def by (intro s32_id) simp_all
  next
    case False
    have "uint (size (header a)) < 4294967296" using uint_lt2p [of "size (header a)"] by simp
    with inv have lt: "uint (size (header a)) - pos a < 4294967296"
      by (simp add: cursor_inv_def)
    with d have "u32_of (uint (size (header a)) - pos a) = uint (size (header a)) - pos a"
      by (simp add: u32_of_def)
    with False lt have "sz < 0" unfolding sz_def by (simp add: s32_def INT_MAX_def)
    with sz8 show ?thesis by simp
  qed
  from p obtain q vl kl key0 val0 where
    e: "text_entry_at (buf a) (pos a) sz q vl kl key0 val0"
    and r: "r = s32 (q + 8 + (kl + 1) + uint vl)"
    unfolding ape_parse_one_def using parse_loop_Entry by blast
  from text_entry_advance(2) [OF e _ szr] sz8 r have "r \<le> sz" by simp
  with szeq r0 inv a' show ?thesis by (simp add: cursor_inv_def)
qed

lemma rd_Some: "rd b i = Some c \<Longrightarrow> 0 \<le> i \<and> nat i < length b \<and> b ! nat i = c"
  by (auto simp: rd_def split: if_split_asm)

lemma xstrdup_Some:
  "xstrdup b p = Some s \<Longrightarrow> 0 \<le> p \<and> s = takeWhile (\<lambda>c. c \<noteq> 0) (drop (nat p) b)"
  by (auto simp: xstrdup_def Let_def split: if_split_asm)

lemma xstrndup_Some:
  "xstrndup b p n = Some s \<Longrightarrow>
     0 \<le> p \<and> s = takeWhile (\<lambda>c. c \<noteq> 0) (take n (drop (nat p) b))"
  by (auto simp: xstrndup_def Let_def split: if_split_asm)

lemma text_entry_key:
  assumes e: "text_entry_at b off sz q vl kl key0 val0"
  shows "0 \<le> kl" and "key0 = take (nat kl) (drop (nat (off + (q + 8))) b)"
    and "\<forall>i. 0 \<le> i \<and> i < kl \<longrightarrow> (\<exists>c. rd b (off + (q + 8) + i) = Some c \<and> c \<noteq> 0)"
proof -
  define p where "p = off + (q + 8)"
  define m where "m = s32 (sz - (q + 8) - uint vl - 1)"
  from e have ks: "key_scan b p m 0 = Some kl" and z: "rd b (p + kl) = Some 0"
    and x: "xstrdup b p = Some key0"
    by (simp_all add: text_entry_at_def m_def p_def)
  from key_scan_Some [OF ks] have kl: "0 \<le> kl"
    and nz: "\<forall>i. 0 \<le> i \<and> i < kl \<longrightarrow> (\<exists>c. rd b (p + i) = Some c \<and> c \<noteq> 0)"
    by simp_all
  show "0 \<le> kl" by (rule kl)
  from nz show "\<forall>i. 0 \<le> i \<and> i < kl \<longrightarrow> (\<exists>c. rd b (off + (q + 8) + i) = Some c \<and> c \<noteq> 0)"
    by (simp add: p_def)
  from xstrdup_Some [OF x] have p0: "0 \<le> p"
    and k0: "key0 = takeWhile (\<lambda>c. c \<noteq> 0) (drop (nat p) b)" by simp_all
  from rd_Some [OF z] have zi: "nat (p + kl) < length b" "b ! nat (p + kl) = 0" by simp_all
  have "takeWhile (\<lambda>c. c \<noteq> 0) (drop (nat p) b) = take (nat kl) (drop (nat p) b)"
  proof (rule takeWhile_eq_take_P_nth)
    fix i assume i: "i < nat kl" "i < length (drop (nat p) b)"
    then have "0 \<le> int i \<and> int i < kl" by simp
    with nz obtain c where c: "rd b (p + int i) = Some c" "c \<noteq> 0" by blast
    from rd_Some [OF c(1)] p0 have "b ! (nat p + i) = c" by (simp add: nat_add_distrib)
    with i c(2) show "drop (nat p) b ! i \<noteq> 0" by simp
  next
    assume "nat kl < length (drop (nat p) b)"
    from zi p0 kl have "b ! (nat p + nat kl) = 0" by (simp add: nat_add_distrib)
    with zi p0 kl show "\<not> drop (nat p) b ! nat kl \<noteq> 0" by (simp add: nat_add_distrib)
  qed
  with k0 show "key0 = take (nat kl) (drop (nat (off + (q + 8))) b)" by (simp add: p_def)
qed

lemma get_comment_entry:
  assumes g: "ape_get_comment n a = Some (Returned (Some (k, v)) a')"
  shows "\<exists>q vl kl key0 val0.
           text_entry_at (buf a) (pos a) (s32 (uint (size (header a)) - pos a)) q vl kl key0 val0
           \<and> k = spec_norm_key key0 \<and> v = spec_norm_val k val0"
proof -
  from get_comment_Entry [OF g] obtain r where
    "ape_parse_one n (buf a) (pos a) (s32 (uint (size (header a)) - pos a)) = Some (Entry k v r)"
    by blast
  then show ?thesis unfolding ape_parse_one_def using parse_loop_Entry by blast
qed

text \<open>The value of a returned entry, in terms of the bytes of the buffer.\<close>

lemma returned_value_bytes:
  assumes "ape_get_comment n a = Some (Returned (Some (k, v)) a')"
  shows "\<exists>q vl fl kl val0.
           get_le32 (buf a) (pos a + q) = Some vl
           \<and> get_le32 (buf a) (pos a + q + 4) = Some fl \<and> AF_IS_UTF8 fl
           \<and> 0 \<le> kl \<and> rd (buf a) (pos a + (q + 8) + kl) = Some 0
           \<and> (\<forall>i. 0 \<le> i \<and> i < kl \<longrightarrow> (\<exists>c. rd (buf a) (pos a + (q + 8) + i) = Some c \<and> c \<noteq> 0))
           \<and> val0 = takeWhile (\<lambda>c. c \<noteq> 0)
                      (take (unat vl) (drop (nat (pos a + (q + 8 + (kl + 1)))) (buf a)))
           \<and> v = spec_norm_val k val0"
proof -
  from get_comment_entry [OF assms] obtain q vl kl key0 val0 where
    e: "text_entry_at (buf a) (pos a) (s32 (uint (size (header a)) - pos a)) q vl kl key0 val0"
    and kv: "k = spec_norm_key key0" "v = spec_norm_val k val0" by blast
  from e obtain fl where fl: "get_le32 (buf a) (pos a + q + 4) = Some fl" "AF_IS_UTF8 fl"
    by (auto simp: text_entry_at_def)
  from e have vl: "get_le32 (buf a) (pos a + q) = Some vl"
    and z: "rd (buf a) (pos a + (q + 8) + kl) = Some 0"
    and x: "xstrndup (buf a) (pos a + (q + 8 + (kl + 1))) (unat vl) = Some val0"
    by (simp_all add: text_entry_at_def)
  from xstrndup_Some [OF x] have "val0 = takeWhile (\<lambda>c. c \<noteq> 0)
                      (take (unat vl) (drop (nat (pos a + (q + 8 + (kl + 1)))) (buf a)))" by simp
  with vl fl z text_entry_key(1,3) [OF e] kv(2) show ?thesis by blast
qed

text \<open>
  The other direction: an item stored at the cursor is decoded and returned, whatever its
  value bytes are.
\<close>

lemma key_scan_complete:
  assumes nz: "\<forall>i. k \<le> i \<and> i < kl \<longrightarrow> (\<exists>c. rd b (p + i) = Some c \<and> c \<noteq> 0)"
    and z: "rd b (p + kl) = Some 0" and le: "k \<le> kl" "kl \<le> m"
  shows "key_scan b p m k = Some kl"
  using assms
proof (induction b p m k rule: key_scan.induct)
  case (1 b p m k)
  show ?case
  proof (cases "k = kl")
    case True
    with "1.prems" show ?thesis by (simp add: key_scan.simps [of b p m kl])
  next
    case False
    with "1.prems" have lt: "k < kl" "k < m" by simp_all
    with "1.prems"(1) obtain c where c: "rd b (p + k) = Some c" "c \<noteq> 0" by auto
    have "key_scan b p m (k + 1) = Some kl"
    proof (rule "1.IH" [OF lt(2) c])
      from "1.prems"(1) show "\<forall>i. k + 1 \<le> i \<and> i < kl \<longrightarrow> (\<exists>c. rd b (p + i) = Some c \<and> c \<noteq> 0)"
        by auto
      from lt show "k + 1 \<le> kl" by simp
    qed (use "1.prems" in simp_all)
    with lt c show ?thesis by (simp add: key_scan.simps [of b p m k])
  qed
qed

lemma xstrndup_inside:
  assumes "0 \<le> p" and "nat p + n \<le> length b"
  shows "xstrndup b p n = Some (takeWhile (\<lambda>c. c \<noteq> 0) (take n (drop (nat p) b)))"
proof -
  define s where "s = takeWhile (\<lambda>c. c \<noteq> 0) (take n (drop (nat p) b))"
  have "length s \<le> length (take n (drop (nat p) b))"
    unfolding s_def by (rule length_takeWhile_le)
  with assms have "length s \<le> n" by simp
  with assms have "length s = n \<or> nat p + length s < length b" by linarith
  with assms show ?thesis by (simp add: xstrndup_def Let_def s_def [symmetric])
qed

lemma xstrdup_key:
  assumes p: "0 \<le> p"
    and nz: "\<forall>i<kl. b ! (nat p + i) \<noteq> 0" and z: "b ! (nat p + kl) = 0"
    and len: "nat p + kl < length b"
  shows "xstrdup b p = Some (take kl (drop (nat p) b))"
proof -
  have tw: "takeWhile (\<lambda>c. c \<noteq> 0) (drop (nat p) b) = take kl (drop (nat p) b)"
  proof (rule takeWhile_eq_take_P_nth)
    fix i assume "i < kl" "i < length (drop (nat p) b)"
    with nz show "drop (nat p) b ! i \<noteq> 0" by simp
  next
    assume "kl < length (drop (nat p) b)"
    with z show "\<not> drop (nat p) b ! kl \<noteq> 0" by simp
  qed
  from len have "length (take kl (drop (nat p) b)) = kl" by simp
  with p len tw show ?thesis by (simp add: xstrdup_def Let_def)
qed

lemma text_item_returned:
  assumes st: "stored_text_item a vl fl kl"
  shows "ape_get_comment (Suc n) a
     = Some (Returned
         (Some (spec_norm_key (take kl (drop (nat (pos a) + 8) (buf a))),
                spec_norm_val (spec_norm_key (take kl (drop (nat (pos a) + 8) (buf a))))
                  (takeWhile (\<lambda>c. c \<noteq> 0)
                     (take (unat vl) (drop (nat (pos a) + 8 + kl + 1) (buf a))))))
         (a\<lparr>pos := pos a + 8 + int kl + 1 + uint vl\<rparr>))"
proof -
  define b where "b = buf a"
  define p where "p = pos a"
  define sz where "sz = uint (size (header a))"
  from st have p0: "0 \<le> p" and szb: "sz \<le> int (length b)" and szc: "sz \<le> 1048576"
    and gv: "get_le32 b p = Some vl" and gf: "get_le32 b (p + 4) = Some fl"
    and utf: "AF_IS_UTF8 fl"
    and fit: "p + 8 + int kl + 1 + uint vl \<le> sz"
    and nz: "\<forall>i<kl. b ! (nat p + 8 + i) \<noteq> 0" and z: "b ! (nat p + 8 + kl) = 0"
    by (simp_all add: stored_text_item_def b_def p_def sz_def)
  have v0: "0 \<le> uint vl" by simp
  have uv: "int (unat vl) = uint vl" by simp
  from p0 fit v0 have lt: "p < sz" "8 < sz - p" by linarith+
  from p0 lt szc have u: "u32_of p = p" by (simp add: u32_of_def)
  from p0 lt szc have s: "s32 (sz - p) = sz - p" by (intro s32_id) (simp_all add: INT_MAX_def)
  define m where "m = sz - p - 8 - uint vl - 1"
  from fit have m0: "int kl \<le> m" by (simp add: m_def)
  have "s32 m = m"
  proof (rule s32_id)
    from m0 show "- 2147483648 \<le> m" by linarith
    from p0 lt szc v0 show "m \<le> INT_MAX" unfolding m_def INT_MAX_def by linarith
  qed
  then have ms: "s32 (sz - p - (0 + 8) - uint vl - 1) = m" by (simp add: m_def)
  have inb: "nat p + 8 + kl + 1 + unat vl \<le> length b"
    using fit szb p0 uv by linarith
  have rdk: "rd b (p + (0 + 8) + int i) = Some (b ! (nat p + 8 + i))" if "i \<le> kl" for i
    using that inb p0 by (simp add: rd_def nat_add_distrib)
  have ks: "key_scan b (p + (0 + 8)) m 0 = Some (int kl)"
  proof (rule key_scan_complete)
    show "\<forall>i. 0 \<le> i \<and> i < int kl \<longrightarrow> (\<exists>c. rd b (p + (0 + 8) + i) = Some c \<and> c \<noteq> 0)"
    proof (intro allI impI)
      fix i :: int assume i: "0 \<le> i \<and> i < int kl"
      then have "nat i \<le> kl" "nat i < kl" by linarith+
      with rdk [of "nat i"] nz i show "\<exists>c. rd b (p + (0 + 8) + i) = Some c \<and> c \<noteq> 0"
        by auto
    qed
    from rdk [of kl] z show "rd b (p + (0 + 8) + int kl) = Some 0" by simp
    show "0 \<le> int kl" by simp
    show "int kl \<le> m" by (rule m0)
  qed
  have xk: "xstrdup b (p + (0 + 8)) = Some (take kl (drop (nat p + 8) b))"
  proof -
    have "xstrdup b (p + 8) = Some (take kl (drop (nat (p + 8)) b))"
    proof (rule xstrdup_key)
      from p0 show "0 \<le> p + 8" by simp
      from nz p0 show "\<forall>i<kl. b ! (nat (p + 8) + i) \<noteq> 0" by (simp add: nat_add_distrib)
      from z p0 show "b ! (nat (p + 8) + kl) = 0" by (simp add: nat_add_distrib)
      from inb p0 show "nat (p + 8) + kl < length b" by (simp add: nat_add_distrib)
    qed
    moreover have "nat (p + 8) = nat p + 8" using p0 by linarith
    moreover have "p + (0 + 8) = p + 8" by simp
    ultimately show ?thesis by (simp only:)
  qed
  have xv: "xstrndup b (p + (0 + 8 + (int kl + 1))) (unat vl)
      = Some (takeWhile (\<lambda>c. c \<noteq> 0) (take (unat vl) (drop (nat p + 8 + kl + 1) b)))"
  proof -
    have "xstrndup b (p + 8 + int kl + 1) (unat vl)
      = Some (takeWhile (\<lambda>c. c \<noteq> 0)
                (take (unat vl) (drop (nat (p + 8 + int kl + 1)) b)))"
    proof (rule xstrndup_inside)
      from p0 show "0 \<le> p + 8 + int kl + 1" by simp
      from inb p0 show "nat (p + 8 + int kl + 1) + unat vl \<le> length b"
        by (simp add: nat_add_distrib)
    qed
    moreover have "nat (p + 8 + int kl + 1) = nat p + 8 + kl + 1" using p0 by linarith
    moreover have "p + (0 + 8 + (int kl + 1)) = p + 8 + int kl + 1" by simp
    ultimately show ?thesis by (simp only:)
  qed
  have "s32 (8 + int kl + 1 + uint vl) = 8 + int kl + 1 + uint vl"
  proof (rule s32_id)
    from v0 show "- 2147483648 \<le> 8 + int kl + 1 + uint vl" by linarith
    from p0 szc fit show "8 + int kl + 1 + uint vl \<le> INT_MAX"
      unfolding INT_MAX_def by linarith
  qed
  then have ps: "s32 (0 + 8 + (int kl + 1) + uint vl) = 8 + int kl + 1 + uint vl"
    by (simp add: add.assoc)
  from rdk [of kl] z have rz: "rd b (p + (0 + 8) + int kl) = Some 0" by simp
  from lt szc p0 have g1: "\<not> sz - p - 0 > INT_MAX" by (simp add: INT_MAX_def)
  have pl: "parse_loop (Suc n) b p (sz - p) 0
      = Some (Entry (spec_norm_key (take kl (drop (nat p + 8) b)))
                (spec_norm_val (spec_norm_key (take kl (drop (nat p + 8) b)))
                   (takeWhile (\<lambda>c. c \<noteq> 0) (take (unat vl) (drop (nat p + 8 + kl + 1) b))))
                (8 + int kl + 1 + uint vl))"
    using g1 lt(2) gv gf ms m0 ks rz utf xk xv ps
    by (simp add: Let_def spec_norm_key_def spec_norm_val_def)
  from fit szc p0 have nov: "\<not> p + (8 + int kl + 1 + uint vl) > INT_MAX"
    by (simp add: INT_MAX_def)
  from v0 have rc0: "\<not> 8 + int kl + 1 + uint vl < 0" by linarith
  from pl lt u s nov rc0 show ?thesis
    unfolding b_def [symmetric] p_def [symmetric]
    by (simp add: ape_get_comment_def ape_parse_one_def Let_def sz_def [symmetric]
        b_def [symmetric] p_def [symmetric] add.assoc del: parse_loop.simps)
qed

section \<open>Evaluation of the decoder on the concrete tags\<close>

lemma wrap_parse: "parse_loop 2 wrap_buf 0 18 0 = Some (Entry [0x6B] [] 18)"
  by code_simp

lemma wrap_get_comment:
  "ape_get_comment 2 wrap_ape = Some (Returned (Some ([0x6B], [])) (wrap_ape\<lparr>pos := 18\<rparr>))"
  using wrap_parse
  by (simp add: ape_get_comment_def ape_parse_one_def wrap_ape_def u32_of_def s32_def
      INT_MAX_def)

lemma zero_parse: "parse_loop 1 zero_buf 0 13 0 = Some (Entry [0x6B] [0x61] 13)"
  by code_simp

lemma zero_get_comment:
  "ape_get_comment 1 zero_ape = Some (Returned (Some ([0x6B], [0x61])) (zero_ape\<lparr>pos := 13\<rparr>))"
  using zero_parse
  by (simp add: ape_get_comment_def ape_parse_one_def zero_ape_def u32_of_def s32_def
      INT_MAX_def)

lemma year_parse:
  "parse_loop 1 year_buf 0 23 0 = Some (Entry str_date [0x31, 0x39, 0x39, 0x39] 23)"
  by code_simp

lemma year_get_comment:
  "ape_get_comment 1 year_ape
     = Some (Returned (Some (str_date, [0x31, 0x39, 0x39, 0x39])) (year_ape\<lparr>pos := 23\<rparr>))"
  using year_parse
  by (simp add: ape_get_comment_def ape_parse_one_def year_ape_def u32_of_def s32_def
      INT_MAX_def)

lemma raw_stored: "stored_text_item raw_ape 3 0 1"
  by (simp add: stored_text_item_def raw_ape_def raw_buf_def get_le32_def rd_def le32_def
      AF_IS_UTF8_def)

lemma raw_norm:
  "spec_norm_key [0x6B] = [0x6B]"
  "spec_norm_val [0x6B] [0xFF, 0xFE, 0x80] = [0xFF, 0xFE, 0x80]"
  by (simp_all add: spec_norm_key_def spec_norm_val_def strcasecmp_eq_def tolower_def
      str_record_date_def str_year_def str_date_def)

text \<open>
  The loop of \<open>ape_parse_one\<close> need not end: on \<open>hang_buf\<close> the skipped entry sets
  \<open>pos\<close> back to 0 (\<open>8 + 0 + 1 + 0xFFFFFFF7\<close> is \<open>2^32\<close>), so no amount of fuel
  gives a result.
\<close>

lemma hang_step: "parse_loop (Suc n) hang_buf 0 9 0 = parse_loop n hang_buf 0 9 0"
proof -
  have g0: "get_le32 hang_buf 0 = Some 0xFFFFFFF7"
    by (simp add: hang_buf_def get_le32_def rd_def le32_def)
  have g4: "get_le32 hang_buf 4 = Some 2"
    by (simp add: hang_buf_def get_le32_def rd_def le32_def)
  have m: "s32 (9 - 8 - uint (0xFFFFFFF7 :: u32) - 1) = 9"
    by (simp add: s32_def u32_of_def INT_MAX_def)
  have k: "key_scan hang_buf 8 9 0 = Some 0"
    by (simp add: key_scan.simps hang_buf_def rd_def)
  have r: "rd hang_buf 8 = Some 0" by (simp add: hang_buf_def rd_def)
  have u: "\<not> AF_IS_UTF8 2" by (simp add: AF_IS_UTF8_def)
  have p: "s32 (8 + (0 + 1 + uint (0xFFFFFFF7 :: u32))) = 0"
    by (simp add: s32_def u32_of_def INT_MAX_def)
  show ?thesis
    using m p by (simp add: g0 g4 k r u INT_MAX_def)
qed

lemma hang_forever: "parse_loop n hang_buf 0 9 0 = None"
  by (induction n) (simp_all only: parse_loop.simps(1) hang_step)

section \<open>Claims about the item decoder\<close>

text \<open>
  C1. An entry whose declared \<open>value_length\<close> makes
  \<open>max_key_len = remaining - value_length - 1\<close> negative in exact integer arithmetic must
  stop the iteration. The source computes the difference in \<open>uint32_t\<close> and converts it to
  \<open>int\<close>, so for \<open>value_length = 0xFFFFFFFF\<close> the exact value \<open>10 - 4294967295 - 1\<close> is
  negative while the computed \<open>max_key_len\<close> is 10: the entry is not taken as corrupt, the
  loop goes on at offset 8, and \<open>ape_get_comment\<close> returns the entry \<open>k\<close> found there.
\<close>

theorem C1_wrapped_value_length_not_rejected:
  "get_le32 (buf wrap_ape) 0 = Some 0xFFFFFFFF
   \<and> (uint (size (header wrap_ape)) - 8) - uint (0xFFFFFFFF :: u32) - 1 < 0
   \<and> ape_get_comment 2 wrap_ape
       = Some (Returned (Some ([0x6B], [])) (wrap_ape\<lparr>pos := 18\<rparr>))"
proof -
  have "get_le32 (buf wrap_ape) 0 = Some 0xFFFFFFFF"
    by (simp add: wrap_ape_def wrap_buf_def get_le32_def rd_def le32_def)
  moreover have "(uint (size (header wrap_ape)) - 8) - uint (0xFFFFFFFF :: u32) - 1 < 0"
    by (simp add: wrap_ape_def)
  ultimately show ?thesis using wrap_get_comment by simp
qed

text \<open>
  C4. The cursor invariant \<open>0 \<le> cursor \<le> header.size\<close> holds on the handle that
  \<open>ape_new\<close> makes, and every call of \<open>ape_get_comment\<close> that returns, on any buffer
  whatever, leaves it true and leaves the header as it was. (A call that reads outside the
  buffer, or that does not return, has no state after it.)
\<close>

theorem C4_cursor_invariant:
  "cursor_inv ape_new
   \<and> (cursor_inv a \<longrightarrow> ape_get_comment n a = Some (Returned res a')
        \<longrightarrow> cursor_inv a' \<and> header a' = header a)"
proof (intro conjI impI)
  show "cursor_inv ape_new" by (simp add: cursor_inv_def ape_new_def)
next
  assume "cursor_inv a" and "ape_get_comment n a = Some (Returned res a')"
  then show "cursor_inv a'" by (rule cursor_step)
next
  assume g: "ape_get_comment n a = Some (Returned res a')"
  show "header a' = header a"
  proof (cases res)
    case None
    with g get_comment_None [of n a a'] show ?thesis by simp
  next
    case (Some kv)
    with g get_comment_Entry [of n a "fst kv" "snd kv" a'] show ?thesis by auto
  qed
qed

theorem C4_cursor_invariant_witness:
  "cursor_inv wrap_ape
   \<and> ape_get_comment 2 wrap_ape = Some (Returned (Some ([0x6B], [])) (wrap_ape\<lparr>pos := 18\<rparr>))
   \<and> cursor_inv (wrap_ape\<lparr>pos := 18\<rparr>)"
proof -
  have i: "cursor_inv wrap_ape" by (simp add: cursor_inv_def wrap_ape_def)
  from C4_cursor_invariant [of wrap_ape 2 "Some ([0x6B], [])" "wrap_ape\<lparr>pos := 18\<rparr>"]
    i wrap_get_comment
  show ?thesis by simp
qed

text \<open>
  C8, as stated: the value of a returned text entry is exactly the \<open>value_length\<close> bytes
  after the key's terminator, zero bytes included. It is not: the value is a C string, so a
  zero byte among those bytes ends it (\<open>zero_ape\<close>: three value bytes \<open>a\<close>, 0, \<open>b\<close>,
  returned value \<open>a\<close>), and the value of a date key is cut to 4 bytes (\<open>year_ape\<close>: ten
  value bytes, returned value \<open>1999\<close>).
\<close>

theorem C8_counterexample:
  "get_le32 (buf zero_ape) 0 = Some 3
   \<and> ape_get_comment 1 zero_ape
       = Some (Returned (Some ([0x6B], [0x61])) (zero_ape\<lparr>pos := 13\<rparr>))
   \<and> take 3 (drop 10 (buf zero_ape)) = [0x61, 0, 0x62]
   \<and> [0x61] \<noteq> take 3 (drop 10 (buf zero_ape))
   \<and> get_le32 (buf year_ape) 0 = Some 10
   \<and> ape_get_comment 1 year_ape
       = Some (Returned (Some (str_date, [0x31, 0x39, 0x39, 0x39])) (year_ape\<lparr>pos := 23\<rparr>))
   \<and> take 10 (drop 13 (buf year_ape))
       = [0x31, 0x39, 0x39, 0x39, 0x2D, 0x30, 0x38, 0x2D, 0x31, 0x31]
   \<and> [0x31, 0x39, 0x39, 0x39] \<noteq> take 10 (drop 13 (buf year_ape))"
proof -
  have "get_le32 (buf zero_ape) 0 = Some 3"
    by (simp add: zero_ape_def zero_buf_def get_le32_def rd_def le32_def)
  moreover have "take 3 (drop 10 (buf zero_ape)) = [0x61, 0, 0x62]"
    by (simp add: zero_ape_def zero_buf_def)
  moreover have "get_le32 (buf year_ape) 0 = Some 10"
    by (simp add: year_ape_def year_buf_def get_le32_def rd_def le32_def)
  moreover have "take 10 (drop 13 (buf year_ape))
       = [0x31, 0x39, 0x39, 0x39, 0x2D, 0x30, 0x38, 0x2D, 0x31, 0x31]"
    by (simp add: year_ape_def year_buf_def)
  ultimately show ?thesis using zero_get_comment year_get_comment by simp
qed

text \<open>
  C8, amended. First part: for every entry that \<open>ape_get_comment\<close> returns there is an
  entry in the buffer (value length \<open>vl\<close>, flags that mark text, a key of \<open>kl\<close> non-zero
  bytes and its zero terminator) such that the value is made of the bytes right after the
  terminator, at most \<open>vl\<close> of them, ending before the first zero byte among them, and cut
  to 4 bytes if the returned key is \<open>date\<close>. Second part: no test is applied to the value
  bytes. Whenever an item with text flags is stored at the cursor, within the body, the call
  returns it with exactly that value, whatever the value bytes are.
\<close>

theorem C8_value_is_c_string:
  "(ape_get_comment n a = Some (Returned (Some (k, v)) a') \<longrightarrow>
      (\<exists>q vl fl kl val0.
           get_le32 (buf a) (pos a + q) = Some vl
           \<and> get_le32 (buf a) (pos a + q + 4) = Some fl \<and> AF_IS_UTF8 fl
           \<and> 0 \<le> kl \<and> rd (buf a) (pos a + (q + 8) + kl) = Some 0
           \<and> (\<forall>i. 0 \<le> i \<and> i < kl \<longrightarrow> (\<exists>c. rd (buf a) (pos a + (q + 8) + i) = Some c \<and> c \<noteq> 0))
           \<and> val0 = takeWhile (\<lambda>c. c \<noteq> 0)
                      (take (unat vl) (drop (nat (pos a + (q + 8 + (kl + 1)))) (buf a)))
           \<and> v = spec_norm_val k val0))
   \<and> (stored_text_item b len flg klen \<longrightarrow>
        ape_get_comment (Suc m) b
          = Some (Returned
              (Some (spec_norm_key (take klen (drop (nat (pos b) + 8) (buf b))),
                     spec_norm_val (spec_norm_key (take klen (drop (nat (pos b) + 8) (buf b))))
                       (takeWhile (\<lambda>c. c \<noteq> 0)
                          (take (unat len) (drop (nat (pos b) + 8 + klen + 1) (buf b))))))
              (b\<lparr>pos := pos b + 8 + int klen + 1 + uint len\<rparr>)))"
  using returned_value_bytes text_item_returned by blast

theorem C8_value_is_c_string_witness:
  "stored_text_item raw_ape 3 0 1
   \<and> ape_get_comment (Suc 0) raw_ape
       = Some (Returned (Some ([0x6B], [0xFF, 0xFE, 0x80])) (raw_ape\<lparr>pos := 13\<rparr>))
   \<and> (\<exists>q vl fl kl val0.
           get_le32 (buf raw_ape) (pos raw_ape + q) = Some vl
           \<and> get_le32 (buf raw_ape) (pos raw_ape + q + 4) = Some fl \<and> AF_IS_UTF8 fl
           \<and> 0 \<le> kl \<and> rd (buf raw_ape) (pos raw_ape + (q + 8) + kl) = Some 0
           \<and> (\<forall>i. 0 \<le> i \<and> i < kl
                 \<longrightarrow> (\<exists>c. rd (buf raw_ape) (pos raw_ape + (q + 8) + i) = Some c \<and> c \<noteq> 0))
           \<and> val0 = takeWhile (\<lambda>c. c \<noteq> 0)
                      (take (unat vl)
                        (drop (nat (pos raw_ape + (q + 8 + (kl + 1)))) (buf raw_ape)))
           \<and> [0xFF, 0xFE, 0x80] = spec_norm_val [0x6B] val0)"
proof -
  note t = C8_value_is_c_string [of "Suc 0" raw_ape "[0x6B]" "[0xFF, 0xFE, 0x80]" "raw_ape\<lparr>pos := 13\<rparr>"
      raw_ape 3 0 1 0]
  from t raw_stored
  have "ape_get_comment (Suc 0) raw_ape
          = Some (Returned
              (Some (spec_norm_key (take 1 (drop (nat (pos raw_ape) + 8) (buf raw_ape))),
                     spec_norm_val (spec_norm_key (take 1 (drop (nat (pos raw_ape) + 8) (buf raw_ape))))
                       (takeWhile (\<lambda>c. c \<noteq> 0)
                          (take (unat (3 :: u32)) (drop (nat (pos raw_ape) + 8 + 1 + 1) (buf raw_ape))))))
              (raw_ape\<lparr>pos := pos raw_ape + 8 + int 1 + 1 + uint (3 :: u32)\<rparr>))"
    by blast
  then have r: "ape_get_comment (Suc 0) raw_ape
       = Some (Returned (Some ([0x6B], [0xFF, 0xFE, 0x80])) (raw_ape\<lparr>pos := 13\<rparr>))"
    by (simp add: raw_ape_def raw_buf_def raw_norm)
  with t raw_stored show ?thesis by blast
qed

text \<open>
  C9. For every entry that \<open>ape_get_comment\<close> returns there is a text entry in the buffer
  whose stored key \<open>key0\<close> is the \<open>kl\<close> bytes before its terminator and whose extracted
  value is \<open>val0\<close>, such that the returned key is \<open>date\<close> if \<open>key0\<close> equals
  \<open>record date\<close> or \<open>year\<close> without regard to case and is \<open>key0\<close> otherwise, and the
  returned value is the first 4 bytes of \<open>val0\<close> if the returned key equals \<open>date\<close>
  without regard to case and \<open>val0\<close> is longer than 4, and is \<open>val0\<close> otherwise.
\<close>

theorem C9_normalisation:
  assumes "ape_get_comment n a = Some (Returned (Some (k, v)) a')"
  shows "\<exists>q vl kl key0 val0.
           text_entry_at (buf a) (pos a) (s32 (uint (size (header a)) - pos a)) q vl kl key0 val0
           \<and> key0 = take (nat kl) (drop (nat (pos a + (q + 8))) (buf a))
           \<and> k = spec_norm_key key0 \<and> v = spec_norm_val k val0"
proof -
  from get_comment_entry [OF assms] obtain q vl kl key0 val0 where
    e: "text_entry_at (buf a) (pos a) (s32 (uint (size (header a)) - pos a)) q vl kl key0 val0"
    and kv: "k = spec_norm_key key0" "v = spec_norm_val k val0" by blast
  from text_entry_key(2) [OF e] e kv show ?thesis by blast
qed

theorem C9_normalisation_witness:
  "ape_get_comment 1 year_ape
     = Some (Returned (Some (str_date, [0x31, 0x39, 0x39, 0x39])) (year_ape\<lparr>pos := 23\<rparr>))
   \<and> (\<exists>q vl kl key0 val0.
           text_entry_at (buf year_ape) (pos year_ape)
             (s32 (uint (size (header year_ape)) - pos year_ape)) q vl kl key0 val0
           \<and> key0 = take (nat kl) (drop (nat (pos year_ape + (q + 8))) (buf year_ape))
           \<and> str_date = spec_norm_key key0
           \<and> [0x31, 0x39, 0x39, 0x39] = spec_norm_val str_date val0)"
  using year_get_comment C9_normalisation [OF year_get_comment] by (rule conjI)

text \<open>
  The keys that the specification lists all become \<open>date\<close>, and the date values it lists
  are cut, or left, as it says.
\<close>

lemma norm_key_examples:
  "spec_norm_key [0x59, 0x65, 0x61, 0x72] = str_date"
  "spec_norm_key [0x59, 0x45, 0x41, 0x52] = str_date"
  "spec_norm_key str_record_date = str_date"
  "spec_norm_key [0x52, 0x65, 0x63, 0x6F, 0x72, 0x64, 0x20, 0x44, 0x61, 0x74, 0x65] = str_date"
  "spec_norm_key [0x74, 0x69, 0x74, 0x6C, 0x65] = [0x74, 0x69, 0x74, 0x6C, 0x65]"
  by (simp_all add: spec_norm_key_def strcasecmp_eq_def tolower_def str_record_date_def
      str_year_def str_date_def)

lemma norm_val_examples:
  "spec_norm_val str_date [0x31, 0x39, 0x39, 0x39] = [0x31, 0x39, 0x39, 0x39]"
  "spec_norm_val str_date [0x39, 0x39] = [0x39, 0x39]"
  "spec_norm_val str_date [0x31, 0x39, 0x39, 0x39, 0x2D, 0x30, 0x38] = [0x31, 0x39, 0x39, 0x39]"
  "spec_norm_val [0x6B] [0x31, 0x39, 0x39, 0x39, 0x2D] = [0x31, 0x39, 0x39, 0x39, 0x2D]"
  by (simp_all add: spec_norm_val_def strcasecmp_eq_def tolower_def str_date_def)

section \<open>Facts about the stream operations and the locator\<close>

lemma sys_read_err:
  "sys_read s n = (RdErr e, s') \<Longrightarrow>
     data s' = data s \<and> offs s' = offs s \<and> regular s' = regular s"
  by (auto simp: sys_read_def Let_def split: list.splits rd_event.splits)

lemma take_min_drop: "take (min (length xs - k) n) (drop k xs) = take n (drop k xs)"
  by (cases "n \<le> length xs - k") (simp_all add: min_def)

lemma sys_read_ok:
  "sys_read s n = (RdOk bs, s') \<Longrightarrow>
     length bs \<le> n \<and> data s' = data s \<and> offs s' = offs s + length bs
     \<and> regular s' = regular s
     \<and> bs = take (length bs) (drop (offs s) (data s))"
  by (auto simp: sys_read_def Let_def take_min_drop split: list.splits rd_event.splits)

lemma lseek_facts:
  "lseek s off w = (r, s') \<Longrightarrow>
     data s' = data s \<and> regular s' = regular s \<and> script s' = script s
     \<and> (r = - 1 \<longrightarrow> s' = s) \<and> (r \<noteq> - 1 \<longrightarrow> 0 \<le> r \<and> offs s' = nat r)"
  by (auto simp: lseek_def Let_def split: if_split_asm)

lemma prefix_append:
  assumes a: "acc = take (length acc) (drop o0 xs)"
    and b: "bs = take (length bs) (drop (o0 + length acc) xs)"
  shows "acc @ bs = take (length (acc @ bs)) (drop o0 xs)"
proof -
  have "take (length acc + length bs) (drop o0 xs)
      = take (length acc) (drop o0 xs) @ take (length bs) (drop (length acc) (drop o0 xs))"
    by (rule take_add)
  also have "drop (length acc) (drop o0 xs) = drop (o0 + length acc) xs"
    by (simp add: add.commute)
  finally show ?thesis using a b by simp
qed

lemma read_all_loop_facts:
  "read_all_loop s cnt acc = (r, bs, s') \<Longrightarrow> length acc \<le> cnt \<Longrightarrow>
   acc = take (length acc) (drop o0 (data s)) \<Longrightarrow> offs s = o0 + length acc \<Longrightarrow>
     data s' = data s \<and> regular s' = regular s \<and> length bs \<le> cnt
     \<and> bs = take (length bs) (drop o0 (data s)) \<and> offs s' = o0 + length bs
     \<and> (r = - 1 \<or> r = int (length bs))"
proof (induction s cnt acc rule: read_all_loop.induct)
  case (1 s cnt acc)
  obtain res s1 where rd: "sys_read s (cnt - length acc) = (res, s1)"
    by (cases "sys_read s (cnt - length acc)")
  show ?case
  proof (cases res)
    case (RdErr e)
    from rd RdErr have f: "data s1 = data s" "offs s1 = offs s" "regular s1 = regular s"
      using sys_read_err [of s "cnt - length acc" e s1] by simp_all
    show ?thesis
    proof (cases "(e = EINTR \<or> e = EAGAIN) \<and> cnt - length acc > 0")
      case True
      with rd RdErr "1.prems"(1) have rec: "read_all_loop s1 cnt acc = (r, bs, s')"
        by (simp add: read_all_loop.simps [of s])
      from True have e: "e = EINTR \<or> e = EAGAIN" and c: "0 < cnt - length acc" by simp_all
      from "1.IH"(1) [OF rd [symmetric] RdErr e c rec "1.prems"(2)] "1.prems"(3,4) f
      show ?thesis by simp
    next
      case False
      with rd RdErr "1.prems" f show ?thesis
        by (auto simp: read_all_loop.simps [of s] split: if_split_asm)
    qed
  next
    case (RdOk b1)
    from rd RdOk have ok: "sys_read s (cnt - length acc) = (RdOk b1, s1)" by simp
    from sys_read_ok [OF ok] have f: "length b1 \<le> cnt - length acc" "data s1 = data s"
      "offs s1 = offs s + length b1" "regular s1 = regular s"
      "b1 = take (length b1) (drop (offs s) (data s))" by simp_all
    from f(5) "1.prems"(4) have b1: "b1 = take (length b1) (drop (o0 + length acc) (data s))"
      by simp
    have pre: "acc @ b1 = take (length (acc @ b1)) (drop o0 (data s))"
      by (rule prefix_append [OF "1.prems"(3) b1])
    have len: "length (acc @ b1) \<le> cnt" using f(1) "1.prems"(2) by simp
    show ?thesis
    proof (cases "b1 \<noteq> [] \<and> cnt - length (acc @ b1) > 0")
      case True
      with ok "1.prems"(1) have rec: "read_all_loop s1 cnt (acc @ b1) = (r, bs, s')"
        by (simp add: read_all_loop.simps [of s])
      from True have ne: "b1 \<noteq> []" and c: "0 < cnt - length (acc @ b1)" by simp_all
      have o: "offs s1 = o0 + length (acc @ b1)" using f(3) "1.prems"(4) by simp
      from "1.IH"(2) [OF rd [symmetric] RdOk ne c rec len] pre o f(2)
      show ?thesis using f by simp
    next
      case False
      with ok "1.prems" f pre len show ?thesis
        by (auto simp: read_all_loop.simps [of s] split: if_split_asm)
    qed
  qed
qed

lemma read_all_facts:
  assumes "read_all s cnt = (r, bs, s')"
  shows "data s' = data s" and "regular s' = regular s" and "length bs \<le> cnt"
    and "bs = take (length bs) (drop (offs s) (data s))"
    and "offs s' = offs s + length bs" and "r = - 1 \<or> r = int (length bs)"
  using read_all_loop_facts [of s cnt "[]" r bs s' "offs s"] assms
  by (simp_all add: read_all_def)

lemma read_all_loop_full:
  "read_all_loop s cnt acc = (r, bs, s') \<Longrightarrow> length acc < cnt \<Longrightarrow> length bs = cnt
     \<Longrightarrow> r = int cnt"
proof (induction s cnt acc rule: read_all_loop.induct)
  case (1 s cnt acc)
  obtain res s1 where rd: "sys_read s (cnt - length acc) = (res, s1)"
    by (cases "sys_read s (cnt - length acc)")
  show ?case
  proof (cases res)
    case (RdErr e)
    show ?thesis
    proof (cases "e = EINTR \<or> e = EAGAIN")
      case True
      from "1.prems"(2) have c: "0 < cnt - length acc" by simp
      with rd RdErr True "1.prems"(1) have rec: "read_all_loop s1 cnt acc = (r, bs, s')"
        by (simp add: read_all_loop.simps [of s])
      from "1.IH"(1) [OF rd [symmetric] RdErr True c rec "1.prems"(2,3)] show ?thesis .
    next
      case False
      with rd RdErr "1.prems" show ?thesis
        by (auto simp: read_all_loop.simps [of s] split: if_split_asm)
    qed
  next
    case (RdOk b1)
    from rd RdOk have ok: "sys_read s (cnt - length acc) = (RdOk b1, s1)" by simp
    show ?thesis
    proof (cases "b1 \<noteq> [] \<and> cnt - length (acc @ b1) > 0")
      case True
      with ok "1.prems"(1) have rec: "read_all_loop s1 cnt (acc @ b1) = (r, bs, s')"
        by (simp add: read_all_loop.simps [of s])
      from True have ne: "b1 \<noteq> []" and c: "0 < cnt - length (acc @ b1)" by simp_all
      from c have lt: "length (acc @ b1) < cnt" by simp
      from "1.IH"(2) [OF rd [symmetric] RdOk ne c rec lt "1.prems"(3)] show ?thesis .
    next
      case False
      with ok "1.prems" show ?thesis
        by (auto simp: read_all_loop.simps [of s] split: if_split_asm)
    qed
  qed
qed

lemma read_all_full:
  assumes "read_all s cnt = (r, bs, s')" and "0 < cnt" and "length bs = cnt"
  shows "r = int cnt"
  using read_all_loop_full [of s cnt "[]" r bs s'] assms by (simp add: read_all_def)

lemma slow_loop_facts:
  "slow_loop s m p = (r, s') \<Longrightarrow> data s' = data s \<and> regular s' = regular s"
proof (induction s m p rule: slow_loop.induct)
  case (1 s m p)
  obtain res s1 where rd: "sys_read s 4096 = (res, s1)" by (cases "sys_read s 4096")
  show ?case
  proof (cases res)
    case (RdErr e)
    from rd RdErr have f: "data s1 = data s" "regular s1 = regular s"
      using sys_read_err [of s 4096 e s1] by simp_all
    show ?thesis
    proof (cases "e = EAGAIN \<or> e = EINTR")
      case True
      with rd RdErr "1.prems" have "slow_loop s1 m p = (r, s')"
        by (simp add: slow_loop.simps [of s])
      from "1.IH"(1) [OF rd [symmetric] RdErr True this] f show ?thesis by simp
    next
      case False
      with rd RdErr "1.prems" f show ?thesis
        by (auto simp: slow_loop.simps [of s] split: if_split_asm)
    qed
  next
    case (RdOk b1)
    from rd RdOk have ok: "sys_read s 4096 = (RdOk b1, s1)" by simp
    from sys_read_ok [OF ok] have f: "data s1 = data s" "regular s1 = regular s" by simp_all
    show ?thesis
    proof (cases "b1 = []")
      case True
      with ok "1.prems" f show ?thesis by (simp add: slow_loop.simps [of s])
    next
      case False
      show ?thesis
      proof (cases "scan_chunk b1 m p 0")
        case (Inl q)
        with ok False "1.prems" f show ?thesis by (simp add: slow_loop.simps [of s])
      next
        case (Inr m')
        with ok False "1.prems" have "slow_loop s1 m' (p + int (length b1)) = (r, s')"
          by (simp add: slow_loop.simps [of s])
        from "1.IH"(2) [OF rd [symmetric] RdOk False Inr this] f show ?thesis by simp
      qed
    qed
  qed
qed

lemma find_ape_tag_slow_facts:
  "find_ape_tag_slow s = (r, s') \<Longrightarrow> data s' = data s \<and> regular s' = regular s"
  by (auto simp: find_ape_tag_slow_def lseek_def Let_def dest: slow_loop_facts
      split: if_split_asm)

lemma read_header_facts:
  assumes "read_header s h = (ok, h', s')"
  shows "data s' = data s" and "regular s' = regular s"
    and "\<not> ok \<Longrightarrow> h' = h"
    and "ok \<Longrightarrow> offs s' = offs s + HEADER_SIZE
           \<and> ape_parse_header (take HEADER_SIZE (drop (offs s) (data s))) h = (True, h')"
proof -
  obtain n b s1 where ra: "read_all s HEADER_SIZE = (n, b, s1)"
    by (cases "read_all s HEADER_SIZE")
  note f = read_all_facts [OF ra]
  from assms ra have s': "s' = s1"
    by (auto split: if_split_asm prod.split_asm simp: read_header_def)
  with f show "data s' = data s" "regular s' = regular s" by simp_all
  show "\<not> ok \<Longrightarrow> h' = h"
    using assms ra
    by (auto split: if_split_asm prod.split_asm simp: read_header_def ape_parse_header_def)
  assume ok
  with assms ra have n: "n = int HEADER_SIZE" and ph: "ape_parse_header b h = (True, h')"
    by (auto split: if_split_asm prod.split_asm simp: read_header_def)
  from n f(6) have "length b = HEADER_SIZE" by (simp add: HEADER_SIZE_def)
  with f(4,5) s' ph
  show "offs s' = offs s + HEADER_SIZE
           \<and> ape_parse_header (take HEADER_SIZE (drop (offs s) (data s))) h = (True, h')"
    by simp
qed

text \<open>
  A located tag: the stream is left right after a 32-byte block that parses as a header.
\<close>

lemma find_ape_tag_facts:
  assumes "find_ape_tag s h slow = (found, h', s')"
  shows "data s' = data s" and "regular s' = regular s"
    and "found \<Longrightarrow> HEADER_SIZE \<le> offs s'
           \<and> ape_parse_header (take HEADER_SIZE (drop (offs s' - HEADER_SIZE) (data s))) h
               = (True, h')"
proof -
  obtain r s1 where l1: "lseek s (- int HEADER_SIZE) SEEK_END = (r, s1)"
    by (cases "lseek s (- int HEADER_SIZE) SEEK_END")
  note f1 = lseek_facts [OF l1]
  obtain ok h1 s2 where rh: "read_header s1 h = (ok, h1, s2)"
    by (cases "read_header s1 h")
  note f2 = read_header_facts [OF rh]
  obtain p s3 where sl: "find_ape_tag_slow s2 = (p, s3)" by (cases "find_ape_tag_slow s2")
  note f3 = find_ape_tag_slow_facts [OF sl]
  obtain r' s4 where l2: "lseek s3 p SEEK_SET = (r', s4)" by (cases "lseek s3 p SEEK_SET")
  note f4 = lseek_facts [OF l2]
  obtain ok2 h2 s5 where rh2: "read_header s4 h1 = (ok2, h2, s5)"
    by (cases "read_header s4 h1")
  note f5 = read_header_facts [OF rh2]
  have d: "data s' = data s \<and> regular s' = regular s"
    using assms l1 rh sl l2 rh2 f1 f2(1,2) f3 f4 f5(1,2)
    by (auto simp: find_ape_tag_def split: if_split_asm)
  then show "data s' = data s" "regular s' = regular s" by simp_all
  assume found
  show "HEADER_SIZE \<le> offs s'
           \<and> ape_parse_header (take HEADER_SIZE (drop (offs s' - HEADER_SIZE) (data s))) h
               = (True, h')"
  proof (cases ok)
    case True
    with assms l1 rh \<open>found\<close> have e: "r \<noteq> - 1" "h' = h1" "s' = s2"
      by (auto simp: find_ape_tag_def split: if_split_asm)
    from f2(4) [OF True] f1 e show ?thesis by simp
  next
    case False
    with assms l1 rh sl l2 rh2 \<open>found\<close>
    have e: "h' = h2" "s' = s5" "ok2"
      by (auto simp: find_ape_tag_def split: if_split_asm)
    from f2(3) [OF False] have "h1 = h" .
    with f5(4) [OF e(3)] e f1 f2(1) f3 f4 show ?thesis by simp
  qed
qed

text \<open>The body of the reader, once the tag is located, in terms of its steps.\<close>

lemma body_located:
  assumes loc: "find_ape_tag s (header a) slow = (True, h, s1)"
    and b: "read_tags_body a s slow = (e, a', s')"
  shows "header a' = h"
    and "e \<noteq> NotFound"
    and "e = SeekFailed \<longleftrightarrow> AF_IS_FOOTER (flags h) \<and> get_size s1 < uint (size h)"
    and "e = TooLarge \<longleftrightarrow> e \<noteq> SeekFailed \<and> 1048576 < uint (size h)"
    and "e = SeekFailed \<or> e = TooLarge \<Longrightarrow> buf a' = buf a \<and> cap a' = cap a"
    and "e = ShortRead \<or> e = Success \<Longrightarrow>
           cap a' = Some (unat (size h)) \<and> length (buf a') \<le> unat (size h)
           \<and> buf a' = take (length (buf a'))
                 (drop (if AF_IS_FOOTER (flags h) then nat (get_size s1 - uint (size h))
                        else offs s1) (data s))"
    and "e = Success \<Longrightarrow> length (buf a') = unat (size h)"
    and "e = ShortRead \<Longrightarrow> length (buf a') < unat (size h) \<or> unat (size h) = 0"
proof -
  define start where
    "start = (if AF_IS_FOOTER (flags h) then nat (get_size s1 - uint (size h)) else offs s1)"
  define s2 where "s2 = s1\<lparr>offs := start\<rparr>"
  obtain n bs s3 where ra: "read_all s2 (unat (size h)) = (n, bs, s3)"
    by (cases "read_all s2 (unat (size h))")
  note f = read_all_facts [OF ra]
  from find_ape_tag_facts(1) [OF loc] have d: "data s1 = data s" .
  have s2eq: "\<not> AF_IS_FOOTER (flags h) \<Longrightarrow> s2 = s1" by (simp add: s2_def start_def)
  have body: "(e, a', s') =
     (if AF_IS_FOOTER (flags h) \<and> get_size s1 < uint (size h)
      then (SeekFailed, a\<lparr>header := h\<rparr>, s1)
      else if 1048576 < uint (size h)
      then (TooLarge, a\<lparr>header := h\<rparr>, s2)
      else if n \<noteq> uint (size h)
      then (ShortRead, a\<lparr>header := h, buf := bs, cap := Some (unat (size h))\<rparr>, s3)
      else (Success, a\<lparr>header := h, buf := bs, cap := Some (unat (size h))\<rparr>, s3))"
    using b loc ra s2eq
    by (auto simp: read_tags_body_def lseek_def Let_def s2_def start_def)
  from body show "header a' = h" by (auto split: if_split_asm)
  from body show "e \<noteq> NotFound" by (auto split: if_split_asm)
  from body show "e = SeekFailed \<longleftrightarrow> AF_IS_FOOTER (flags h) \<and> get_size s1 < uint (size h)"
    by (auto split: if_split_asm)
  from body show "e = TooLarge \<longleftrightarrow> e \<noteq> SeekFailed \<and> 1048576 < uint (size h)"
    by (auto split: if_split_asm)
  from body show "e = SeekFailed \<or> e = TooLarge \<Longrightarrow> buf a' = buf a \<and> cap a' = cap a"
    by (auto split: if_split_asm)
  from f(4) d have pre: "bs = take (length bs) (drop start (data s))"
    by (simp add: s2_def)
  from body f(3) pre
  show "e = ShortRead \<or> e = Success \<Longrightarrow>
           cap a' = Some (unat (size h)) \<and> length (buf a') \<le> unat (size h)
           \<and> buf a' = take (length (buf a'))
                 (drop (if AF_IS_FOOTER (flags h) then nat (get_size s1 - uint (size h))
                        else offs s1) (data s))"
    unfolding start_def by (auto split: if_split_asm)
  show "length (buf a') = unat (size h)" if "e = Success"
  proof -
    from body that have n: "n = uint (size h)" and a': "buf a' = bs"
      by (auto split: if_split_asm)
    have "0 \<le> uint (size h)" by simp
    with n f(6) have "int (length bs) = uint (size h)" by auto
    then have "nat (int (length bs)) = nat (uint (size h))" by (rule arg_cong)
    then have "length bs = unat (size h)" by (simp only: nat_int nat_uint_eq)
    with a' show ?thesis by simp
  qed
  show "length (buf a') < unat (size h) \<or> unat (size h) = 0" if "e = ShortRead"
  proof (rule ccontr)
    assume "\<not> (length (buf a') < unat (size h) \<or> unat (size h) = 0)"
    moreover from body that have n: "n \<noteq> uint (size h)" and a': "buf a' = bs"
      by (auto split: if_split_asm)
    ultimately have "0 < unat (size h)" "length bs = unat (size h)" using f(3) by simp_all
    from read_all_full [OF ra this] have "n = int (unat (size h))" .
    with n show False by simp
  qed
qed

text \<open>A scan that finds no tag leaves the header as it was.\<close>

lemma find_ape_tag_not_found:
  assumes "find_ape_tag s h slow = (False, h', s')"
  shows "h' = h"
proof -
  obtain r s1 where l1: "lseek s (- int HEADER_SIZE) SEEK_END = (r, s1)"
    by (cases "lseek s (- int HEADER_SIZE) SEEK_END")
  obtain ok h1 s2 where rh: "read_header s1 h = (ok, h1, s2)"
    by (cases "read_header s1 h")
  obtain p s3 where sl: "find_ape_tag_slow s2 = (p, s3)" by (cases "find_ape_tag_slow s2")
  obtain r' s4 where l2: "lseek s3 p SEEK_SET = (r', s4)" by (cases "lseek s3 p SEEK_SET")
  obtain ok2 h2 s5 where rh2: "read_header s4 h1 = (ok2, h2, s5)"
    by (cases "read_header s4 h1")
  have h1: "\<not> ok \<Longrightarrow> h1 = h" by (rule read_header_facts(3) [OF rh])
  have h2: "\<not> ok2 \<Longrightarrow> h2 = h1" by (rule read_header_facts(3) [OF rh2])
  from assms l1 rh sl l2 rh2 h1 h2 show ?thesis
    by (auto simp: find_ape_tag_def split: if_split_asm)
qed

lemma body_not_found:
  assumes "read_tags_body a s slow = (NotFound, a', s')"
  shows "a' = a"
proof -
  obtain found h s1 where f: "find_ape_tag s (header a) slow = (found, h, s1)"
    by (cases "find_ape_tag s (header a) slow")
  show ?thesis
  proof (cases found)
    case True
    with f have "find_ape_tag s (header a) slow = (True, h, s1)" by simp
    from body_located(2) [OF this assms] show ?thesis by simp
  next
    case False
    with f have "h = header a" by (simp add: find_ape_tag_not_found)
    with assms f False show ?thesis by (simp add: read_tags_body_def)
  qed
qed

section \<open>Evaluation of the reader on the concrete streams\<close>

lemma read_tags_rc:
  assumes "read_tags_body a s slow = (e, a', s')"
  shows "fst (ape_read_tags a s slow) = (if e = Success then s32 (uint (count (header a'))) else - 1)"
    and "fst (snd (ape_read_tags a s slow)) = a'"
  using assms by (simp_all add: ape_read_tags_def lseek_def Let_def split: prod.splits)

lemma count_body:
  "read_tags_body ape_new count_stream False
     = (Success,
        ape_new\<lparr>header := \<lparr>version = 2000, size = 0, count = 0xFFFFFFFF, flags = 0\<rparr>,
                 buf := [], cap := Some 0\<rparr>,
        count_stream\<lparr>offs := 32\<rparr>)"
  by code_simp

lemma seek_find:
  "find_ape_tag seek_stream (header ape_new) False
     = (True, \<lparr>version = 2000, size = 100, count = 1, flags = 0\<rparr>, seek_stream\<lparr>offs := 32\<rparr>)"
  by code_simp

lemma seek_body:
  "read_tags_body ape_new seek_stream False
     = (SeekFailed,
        ape_new\<lparr>header := \<lparr>version = 2000, size = 100, count = 1, flags = 0\<rparr>\<rparr>,
        seek_stream\<lparr>offs := 32\<rparr>)"
  by code_simp

lemma short_find:
  "find_ape_tag short_stream (header ape_new) False
     = (True, \<lparr>version = 2000, size = 13, count = 1, flags = 0x20000000\<rparr>,
        short_stream\<lparr>offs := 32\<rparr>)"
  by code_simp

lemma short_body:
  "read_tags_body ape_new short_stream False
     = (ShortRead,
        ape_new\<lparr>header := \<lparr>version = 2000, size = 13, count = 1, flags = 0x20000000\<rparr>,
                 buf := [], cap := Some 13\<rparr>,
        short_stream\<lparr>offs := 32\<rparr>)"
  by code_simp

lemma footer_find:
  "find_ape_tag footer_stream (header ape_new) False
     = (True, footer_hdr, footer_stream\<lparr>offs := 50\<rparr>)"
  by code_simp

lemma footer_body:
  "read_tags_body ape_new footer_stream False
     = (Success,
        ape_new\<lparr>header := footer_hdr,
                 buf := zero_buf @ block [45, 0, 0, 0] [1, 0, 0, 0] [0, 0, 0, 0],
                 cap := Some 45\<rparr>,
        footer_stream\<lparr>offs := 50\<rparr>)"
  by code_simp

lemma header_find:
  "find_ape_tag header_stream (header ape_new) True
     = (True, header_hdr, header_stream\<lparr>offs := 35\<rparr>)"
  by code_simp

lemma header_body:
  "read_tags_body ape_new header_stream True
     = (Success, ape_new\<lparr>header := header_hdr, buf := zero_buf, cap := Some 13\<rparr>,
        header_stream\<lparr>offs := 48\<rparr>)"
  by code_simp

lemma footer_read:
  "ape_read_tags ape_new footer_stream False
     = (1, ape_new\<lparr>header := footer_hdr,
                     buf := zero_buf @ block [45, 0, 0, 0] [1, 0, 0, 0] [0, 0, 0, 0],
                     cap := Some 45\<rparr>,
        footer_stream)"
  by code_simp

lemma short_read:
  "ape_read_tags ape_new short_stream False
     = (- 1,
        ape_new\<lparr>header := \<lparr>version = 2000, size = 13, count = 1, flags = 0x20000000\<rparr>,
                 buf := [], cap := Some 13\<rparr>,
        short_stream)"
  by code_simp

lemma aa_body: "read_tags_body ape_new aa_stream True = (NotFound, ape_new, aa_stream)"
  by code_simp

lemma seek_get_comment:
  "ape_get_comment 1 (ape_new\<lparr>header := \<lparr>version = 2000, size = 100, count = 1, flags = 0\<rparr>\<rparr>)
     = Some Faulted"
  by code_simp

section \<open>Claims about the locator and the body reader\<close>

text \<open>
  Where \<open>ape_read_tags\<close> leaves the offset: at the saved offset as an \<open>int\<close> holds it.
  If that \<open>int\<close> is negative the last \<open>lseek\<close> fails and the offset stays where the
  body left it.
\<close>

lemma read_tags_offset:
  "offs (snd (snd (ape_read_tags a s slow)))
     = (if s32 (int (offs s)) < 0 then offs (snd (snd (read_tags_body a s slow)))
        else nat (s32 (int (offs s))))"
  by (simp add: ape_read_tags_def lseek_def Let_def split: prod.splits)

lemma read_tags_restores:
  assumes "int (offs s) \<le> INT_MAX"
  shows "offs (snd (snd (ape_read_tags a s slow))) = offs s"
proof -
  from assms have "s32 (int (offs s)) = int (offs s)" by (intro s32_id) simp_all
  then show ?thesis by (simp add: read_tags_offset)
qed

text \<open>
  C2. \<open>ape_read_tags\<close> must leave the offset of the stream where it found it. It keeps the
  offset in an \<open>int\<close>, so an offset of \<open>2^31\<close> or more is not restored: from offset
  \<open>2^32 + 5\<close> the call returns with the offset at 5. (Offsets that fit an \<open>int\<close> are
  restored on every path: \<open>read_tags_restores\<close>.)
\<close>

theorem C2_offset_not_restored:
  "offs far_stream = 4294967301
   \<and> offs (snd (snd (ape_read_tags ape_new far_stream False))) = 5"
proof -
  have o: "offs far_stream = 4294967301" by (simp add: far_stream_def file_of_def)
  have "s32 4294967301 = 5" by (simp add: s32_def u32_of_def INT_MAX_def)
  with o show ?thesis by (simp add: read_tags_offset)
qed

text \<open>
  C3. The slow scan must return the offset of the first occurrence of the preamble in every
  stream that contains it. On a mismatch it sets the match length to 0 and goes to the next
  byte without trying the mismatching byte as the start of a new match, so in \<open>AAPETAGEX\<close>
  (preamble at offset 1) the second \<open>A\<close> is lost and the scan returns \<open>-1\<close> at the end of
  the stream.
\<close>

theorem C3_first_occurrence_missed:
  "take 8 (drop 1 (data aa_stream)) = preamble
   \<and> find_ape_tag_slow aa_stream = (- 1, aa_stream\<lparr>offs := 9\<rparr>)"
  by code_simp

text \<open>
  C5, as stated: for every located tag with \<open>header.size\<close> at most 1,048,576 the buffer of
  \<open>header.size\<close> bytes is allocated and filled. It is allocated, but filled only as far as
  the stream has bytes: \<open>short_stream\<close> ends with a header that declares 13 bytes and has
  none after it, so 13 bytes are allocated, none is read, and the call fails.
\<close>

theorem C5_counterexample:
  "find_ape_tag short_stream (header ape_new) False
     = (True, \<lparr>version = 2000, size = 13, count = 1, flags = 0x20000000\<rparr>,
        short_stream\<lparr>offs := 32\<rparr>)
   \<and> ape_read_tags ape_new short_stream False
     = (- 1,
        ape_new\<lparr>header := \<lparr>version = 2000, size = 13, count = 1, flags = 0x20000000\<rparr>,
                 buf := [], cap := Some 13\<rparr>,
        short_stream)"
  using short_find short_read by (rule conjI)

text \<open>
  C5, amended: for a located tag with \<open>header.size\<close> above 1,048,576, \<open>ape_read_tags\<close>
  returns \<open>-1\<close> and leaves the handle's buffer as it was. With \<open>header.size\<close> at most
  1,048,576, and in the footer-terminated layout at most the size of the file (so that the
  seek before the test succeeds), \<open>header.size\<close> bytes are allocated and at most that many
  are read into them. A call that succeeds has read all \<open>header.size\<close> bytes and returns
  the count; a call that has read all of a non-empty body succeeds; every other call fails
  on the short read and returns \<open>-1\<close>.
\<close>

theorem C5_size_cap:
  assumes loc: "find_ape_tag s (header a) slow = (True, h, s1)"
    and r: "ape_read_tags a s slow = (rc, a', s')"
  shows "(1048576 < uint (size h) \<longrightarrow> rc = - 1 \<and> buf a' = buf a \<and> cap a' = cap a)
       \<and> (uint (size h) \<le> 1048576 \<and> (AF_IS_FOOTER (flags h) \<longrightarrow> uint (size h) \<le> get_size s1)
            \<longrightarrow> cap a' = Some (unat (size h)) \<and> length (buf a') \<le> unat (size h)
               \<and> (fst (read_tags_body a s slow) = Success
                     \<longrightarrow> length (buf a') = unat (size h))
               \<and> (length (buf a') = unat (size h) \<and> 0 < unat (size h)
                     \<longrightarrow> fst (read_tags_body a s slow) = Success)
               \<and> (fst (read_tags_body a s slow) = Success
                     \<longrightarrow> rc = s32 (uint (count h)))
               \<and> (fst (read_tags_body a s slow) \<noteq> Success
                     \<longrightarrow> fst (read_tags_body a s slow) = ShortRead \<and> rc = - 1))"
proof -
  obtain e a1 s2 where b: "read_tags_body a s slow = (e, a1, s2)"
    by (cases "read_tags_body a s slow")
  from read_tags_rc [OF b] r
  have rc: "rc = (if e = Success then s32 (uint (count (header a1))) else - 1)"
    and a1: "a1 = a'" by simp_all
  note f = body_located [OF loc b]
  have big: "rc = - 1 \<and> buf a' = buf a \<and> cap a' = cap a" if "1048576 < uint (size h)"
  proof -
    from that f(3,4) have "e = SeekFailed \<or> e = TooLarge" by auto
    with f(5) rc a1 show ?thesis by auto
  qed
  have small: "cap a' = Some (unat (size h)) \<and> length (buf a') \<le> unat (size h)
               \<and> (e = Success \<longrightarrow> length (buf a') = unat (size h))
               \<and> (length (buf a') = unat (size h) \<and> 0 < unat (size h) \<longrightarrow> e = Success)
               \<and> (e = Success \<longrightarrow> rc = s32 (uint (count h)))
               \<and> (e \<noteq> Success \<longrightarrow> e = ShortRead \<and> rc = - 1)"
    if "uint (size h) \<le> 1048576" "AF_IS_FOOTER (flags h) \<longrightarrow> uint (size h) \<le> get_size s1"
  proof -
    from that f(2,3,4) have e: "e = ShortRead \<or> e = Success" by (cases e) auto
    have full: "e = Success" if "length (buf a') = unat (size h)" "0 < unat (size h)"
    proof (rule ccontr)
      assume "e \<noteq> Success"
      with e have "e = ShortRead" by simp
      from f(8) [OF this] a1 that show False by simp
    qed
    from f(1) a1 rc have cnt: "e = Success \<longrightarrow> rc = s32 (uint (count h))" by simp
    from e f(6,7) rc a1 full cnt show ?thesis by auto
  qed
  from big small b show ?thesis by simp
qed

theorem C5_size_cap_witness:
  "find_ape_tag footer_stream (header ape_new) False
     = (True, footer_hdr, footer_stream\<lparr>offs := 50\<rparr>)
   \<and> uint (size footer_hdr) \<le> 1048576
   \<and> uint (size footer_hdr) \<le> get_size (footer_stream\<lparr>offs := 50\<rparr>)
   \<and> fst (read_tags_body ape_new footer_stream False) = Success
   \<and> cap (fst (snd (ape_read_tags ape_new footer_stream False))) = Some 45
   \<and> length (buf (fst (snd (ape_read_tags ape_new footer_stream False)))) = 45"
proof -
  have g: "get_size (footer_stream\<lparr>offs := 50\<rparr>) = 50"
    by (simp add: get_size_def footer_stream_def file_of_def zero_buf_def block_def
        preamble_def)
  have z: "uint (size footer_hdr) = 45" "unat (size footer_hdr) = 45"
    by (simp_all add: footer_hdr_def)
  from C5_size_cap [OF footer_find footer_read] footer_find footer_body g z
  show ?thesis by (simp add: footer_read)
qed

text \<open>
  C6, as stated: for every located tag with bit 29 of the flags clear, \<open>ape_read_tags\<close>
  seeks to the end of the stream minus \<open>header.size\<close> and reads the body from there. In
  \<open>seek_stream\<close>, a 32-byte file whose footer declares 100 bytes, that position is before
  the start of the file: the seek fails and nothing is read.
\<close>

theorem C6_counterexample:
  "find_ape_tag seek_stream (header ape_new) False
     = (True, \<lparr>version = 2000, size = 100, count = 1, flags = 0\<rparr>, seek_stream\<lparr>offs := 32\<rparr>)
   \<and> AF_IS_FOOTER 0
   \<and> int (length (data seek_stream)) - 100 < 0
   \<and> read_tags_body ape_new seek_stream False
     = (SeekFailed,
        ape_new\<lparr>header := \<lparr>version = 2000, size = 100, count = 1, flags = 0\<rparr>\<rparr>,
        seek_stream\<lparr>offs := 32\<rparr>)"
proof -
  have "AF_IS_FOOTER 0" by (simp add: AF_IS_FOOTER_def)
  moreover have "int (length (data seek_stream)) - 100 < 0"
    by (simp add: seek_stream_def file_of_def block_def preamble_def)
  ultimately show ?thesis using seek_find seek_body by simp
qed

text \<open>
  C6, amended: a located tag leaves the stream right after a 32-byte block that parses as
  the header. With bit 29 clear, \<open>ape_read_tags\<close> seeks to \<open>get_size\<close> (the length of a
  regular file) minus \<open>header.size\<close>; the seek fails exactly when \<open>header.size\<close> is larger
  than that, and then nothing is read; a call that succeeds has read the \<open>header.size\<close>
  bytes from that position. With bit 29 set there is no seek, and a call that succeeds has
  read the \<open>header.size\<close> bytes that follow the header block.
\<close>

theorem C6_layouts:
  assumes loc: "find_ape_tag s (header a) slow = (True, h, s1)"
    and b: "read_tags_body a s slow = (e, a', s')"
  shows "HEADER_SIZE \<le> offs s1
       \<and> ape_parse_header (take HEADER_SIZE (drop (offs s1 - HEADER_SIZE) (data s))) (header a)
           = (True, h)
       \<and> (regular s \<longrightarrow> get_size s1 = int (length (data s)))
       \<and> (AF_IS_FOOTER (flags h) \<longrightarrow>
            (e = SeekFailed \<longleftrightarrow> get_size s1 < uint (size h))
            \<and> (e = SeekFailed \<longrightarrow> buf a' = buf a)
            \<and> (e = Success \<longrightarrow>
                 buf a' = take (unat (size h))
                            (drop (nat (get_size s1 - uint (size h))) (data s))))
       \<and> (\<not> AF_IS_FOOTER (flags h) \<longrightarrow>
            e \<noteq> SeekFailed
            \<and> (e = Success \<longrightarrow> buf a' = take (unat (size h)) (drop (offs s1) (data s))))"
proof -
  note f = body_located [OF loc b]
  note g = find_ape_tag_facts [OF loc]
  from g(3) have hd: "HEADER_SIZE \<le> offs s1
       \<and> ape_parse_header (take HEADER_SIZE (drop (offs s1 - HEADER_SIZE) (data s))) (header a)
           = (True, h)" by simp
  from g(1,2) have sz: "regular s \<longrightarrow> get_size s1 = int (length (data s))"
    by (simp add: get_size_def)
  have su: "buf a' = take (unat (size h))
              (drop (if AF_IS_FOOTER (flags h) then nat (get_size s1 - uint (size h))
                     else offs s1) (data s))" if "e = Success"
    using f(6,7) that by simp
  from hd sz f(3,5) su show ?thesis by auto
qed

theorem C6_layouts_witness:
  "find_ape_tag header_stream (header ape_new) True
     = (True, header_hdr, header_stream\<lparr>offs := 35\<rparr>)
   \<and> read_tags_body ape_new header_stream True
     = (Success, ape_new\<lparr>header := header_hdr, buf := zero_buf, cap := Some 13\<rparr>,
        header_stream\<lparr>offs := 48\<rparr>)
   \<and> \<not> AF_IS_FOOTER (flags header_hdr)
   \<and> zero_buf = take (unat (size header_hdr)) (drop 35 (data header_stream))
   \<and> find_ape_tag footer_stream (header ape_new) False
     = (True, footer_hdr, footer_stream\<lparr>offs := 50\<rparr>)
   \<and> AF_IS_FOOTER (flags footer_hdr)
   \<and> fst (read_tags_body ape_new footer_stream False) = Success
   \<and> buf (fst (snd (read_tags_body ape_new footer_stream False)))
       = take (unat (size footer_hdr)) (drop (nat (50 - 45)) (data footer_stream))"
proof -
  have nf: "\<not> AF_IS_FOOTER (flags header_hdr)"
    by (simp add: AF_IS_FOOTER_def header_hdr_def)
  have ft: "AF_IS_FOOTER (flags footer_hdr)"
    by (simp add: AF_IS_FOOTER_def footer_hdr_def)
  have g: "get_size (footer_stream\<lparr>offs := 50\<rparr>) = 50"
    by (simp add: get_size_def footer_stream_def file_of_def zero_buf_def block_def
        preamble_def)
  have z: "uint (size footer_hdr) = 45" by (simp add: footer_hdr_def)
  from C6_layouts [OF header_find header_body] nf
  have 1: "zero_buf = take (unat (size header_hdr)) (drop 35 (data header_stream))" by simp
  from C6_layouts [OF footer_find footer_body] ft g z
  have 2: "buf (fst (snd (read_tags_body ape_new footer_stream False)))
       = take (unat (size footer_hdr)) (drop (nat (50 - 45)) (data footer_stream))"
    by (simp add: footer_body)
  from header_find header_body nf 1 footer_find ft footer_body 2 show ?thesis by simp
qed

text \<open>
  C7, as stated: the count returned on success is \<open>header.count\<close> for every 32-bit value
  of that field, and can be told from the failure value. The return type is \<open>int\<close>: for
  \<open>header.count = 0xFFFFFFFF\<close> a successful call returns \<open>-1\<close>, which is what a failed
  call returns.
\<close>

theorem C7_counterexample:
  "fst (read_tags_body ape_new count_stream False) = Success
   \<and> count (header (fst (snd (ape_read_tags ape_new count_stream False)))) = 0xFFFFFFFF
   \<and> fst (ape_read_tags ape_new count_stream False) = - 1
   \<and> fst (read_tags_body ape_new seek_stream False) = SeekFailed
   \<and> fst (ape_read_tags ape_new seek_stream False) = - 1"
proof -
  have "s32 (uint (0xFFFFFFFF :: u32)) = - 1" by (simp add: s32_def u32_of_def INT_MAX_def)
  with read_tags_rc [OF count_body] read_tags_rc [OF seek_body] count_body seek_body
  show ?thesis by simp
qed

text \<open>
  C7, amended: \<open>ape_read_tags\<close> returns \<open>-1\<close> on every path that fails and
  \<open>header.count\<close> converted to \<open>int\<close> on success; for every \<open>header.count\<close> up to
  \<open>2^31 - 1\<close> that is \<open>header.count\<close> itself, which is not \<open>-1\<close>.
\<close>

theorem C7_count_as_int:
  assumes b: "read_tags_body a s slow = (e, a', s')"
  shows "fst (snd (ape_read_tags a s slow)) = a'
       \<and> (e \<noteq> Success \<longrightarrow> fst (ape_read_tags a s slow) = - 1)
       \<and> (e = Success \<longrightarrow> fst (ape_read_tags a s slow) = s32 (uint (count (header a'))))
       \<and> (e = Success \<and> uint (count (header a')) \<le> INT_MAX
            \<longrightarrow> fst (ape_read_tags a s slow) = uint (count (header a'))
               \<and> fst (ape_read_tags a s slow) \<noteq> - 1)"
proof -
  have nn: "0 \<le> uint (count (header a'))" by simp
  then have ne: "uint (count (header a')) \<noteq> - 1" by linarith
  have "s32 (uint (count (header a'))) = uint (count (header a'))"
    if "uint (count (header a')) \<le> INT_MAX"
  proof (rule s32_id)
    from nn show "- 2147483648 \<le> uint (count (header a'))" by linarith
    from that show "uint (count (header a')) \<le> INT_MAX" .
  qed
  then have ok: "e = Success \<and> uint (count (header a')) \<le> INT_MAX
            \<longrightarrow> fst (ape_read_tags a s slow) = uint (count (header a'))
               \<and> fst (ape_read_tags a s slow) \<noteq> - 1"
    using ne read_tags_rc(1) [OF b] by (cases "e = Success") simp_all
  from read_tags_rc [OF b] have "fst (snd (ape_read_tags a s slow)) = a'"
    and "e \<noteq> Success \<longrightarrow> fst (ape_read_tags a s slow) = - 1"
    and "e = Success \<longrightarrow> fst (ape_read_tags a s slow) = s32 (uint (count (header a')))"
    by simp_all
  with ok show ?thesis by blast
qed

theorem C7_count_as_int_witness:
  "read_tags_body ape_new footer_stream False
     = (Success,
        ape_new\<lparr>header := footer_hdr,
                 buf := zero_buf @ block [45, 0, 0, 0] [1, 0, 0, 0] [0, 0, 0, 0],
                 cap := Some 45\<rparr>,
        footer_stream\<lparr>offs := 50\<rparr>)
   \<and> uint (count footer_hdr) \<le> INT_MAX
   \<and> fst (ape_read_tags ape_new footer_stream False) = uint (count footer_hdr)
   \<and> fst (ape_read_tags ape_new footer_stream False) = 1"
proof -
  have c: "uint (count footer_hdr) = 1" by (simp add: footer_hdr_def)
  from C7_count_as_int [OF footer_body] c footer_body
  show ?thesis by (simp add: INT_MAX_def)
qed

section \<open>The handle before a tag has been read\<close>

text \<open>
  C10, as stated: on a fresh handle on which \<open>ape_read_tags\<close> has never succeeded,
  \<open>ape_get_comment\<close> returns the null pointer without touching the buffer, because the
  handle is still zeroed. A call of \<open>ape_read_tags\<close> that locates a tag and then fails has
  already written the header into the handle: after the failed call on \<open>seek_stream\<close> the
  handle has \<open>header.size = 100\<close> and the null buffer, and \<open>ape_get_comment\<close> reads
  through it.
\<close>

theorem C10_counterexample:
  "fst (ape_read_tags ape_new seek_stream False) = - 1
   \<and> fst (snd (ape_read_tags ape_new seek_stream False))
       = ape_new\<lparr>header := \<lparr>version = 2000, size = 100, count = 1, flags = 0\<rparr>\<rparr>
   \<and> ape_get_comment 1 (fst (snd (ape_read_tags ape_new seek_stream False))) = Some Faulted"
  using read_tags_rc [OF seek_body] seek_get_comment by simp

text \<open>
  C10, amended: on a handle fresh from \<open>ape_new\<close>, and after every call of
  \<open>ape_read_tags\<close> on it that fails without locating a tag, the handle is the zeroed one
  (cursor 0, \<open>header.size = 0\<close>, null buffer) and \<open>ape_get_comment\<close> returns the null
  pointer at its first test, for every fuel: the parsing function, the only reader of the
  buffer, is not reached (with no fuel it could not return).
\<close>

theorem C10_untouched_handle_signals_end:
  "ape_get_comment n ape_new = Some (Returned None ape_new)
   \<and> pos ape_new = 0 \<and> size (header ape_new) = 0 \<and> cap ape_new = None
   \<and> (fst (read_tags_body ape_new s slow) = NotFound \<longrightarrow>
        fst (ape_read_tags ape_new s slow) = - 1
        \<and> fst (snd (ape_read_tags ape_new s slow)) = ape_new
        \<and> ape_get_comment n (fst (snd (ape_read_tags ape_new s slow)))
            = Some (Returned None ape_new))"
proof -
  have g: "ape_get_comment n ape_new = Some (Returned None ape_new)"
    by (simp add: ape_get_comment_def ape_new_def u32_of_def)
  have "fst (ape_read_tags ape_new s slow) = - 1
        \<and> fst (snd (ape_read_tags ape_new s slow)) = ape_new
        \<and> ape_get_comment n (fst (snd (ape_read_tags ape_new s slow)))
            = Some (Returned None ape_new)"
    if nf: "fst (read_tags_body ape_new s slow) = NotFound"
  proof -
    obtain a' s' where b: "read_tags_body ape_new s slow = (NotFound, a', s')"
      using nf by (cases "read_tags_body ape_new s slow") simp
    from body_not_found [OF b] have "a' = ape_new" .
    with read_tags_rc [OF b] g show ?thesis by simp
  qed
  with g show ?thesis by (simp add: ape_new_def)
qed

theorem C10_untouched_handle_signals_end_witness:
  "fst (read_tags_body ape_new aa_stream True) = NotFound
   \<and> fst (ape_read_tags ape_new aa_stream True) = - 1
   \<and> fst (snd (ape_read_tags ape_new aa_stream True)) = ape_new
   \<and> ape_get_comment 3 (fst (snd (ape_read_tags ape_new aa_stream True)))
       = Some (Returned None ape_new)"
proof -
  have nf: "fst (read_tags_body ape_new aa_stream True) = NotFound" by (simp add: aa_body)
  with C10_untouched_handle_signals_end [of 3 aa_stream True] show ?thesis by blast
qed


end
